theory Spec2Isabelle
  imports Complex_Main "HOL-Library.Log_Nat"
begin

section \<open>Text model\<close>

text \<open>
  A Python \<^verbatim>\<open>str\<close> is a sequence of Unicode code points; \<^verbatim>\<open>len\<close> counts code points.
  A character is its code point, a string a list of them.
\<close>

type_synonym uchar = nat
type_synonym ustring = "uchar list"

text \<open>
  The regular expressions of \<^verbatim>\<open>preprocess_text\<close> use the classes \<^verbatim>\<open>\w\<close> and \<^verbatim>\<open>\s\<close>. Their
  extent is fixed by the Unicode tables of the Python runtime, which are not part of the
  repository: they are parameters. \<^verbatim>\<open>str.strip()\<close> uses the same whitespace table as
  \<^verbatim>\<open>\s\<close>.
\<close>

record char_tables =
  word_char :: "uchar \<Rightarrow> bool"
  space_char :: "uchar \<Rightarrow> bool"

text \<open>The ASCII space, the replacement text of the second substitution.\<close>

definition SPACE :: uchar where
  "SPACE = 32"

subsection \<open>\<^verbatim>\<open>preprocess_text\<close>\<close>

text \<open>\<^verbatim>\<open>re.sub(r'[^\w\s]', '', text)\<close>: every character outside both classes is deleted.\<close>

definition remove_punctuation :: "char_tables \<Rightarrow> ustring \<Rightarrow> ustring" where
  "remove_punctuation U text = filter (\<lambda>c. word_char U c \<or> space_char U c) text"

text \<open>
  \<^verbatim>\<open>re.sub(r'\s+', ' ', text)\<close>: scanning from the left, every maximal run of whitespace
  characters is replaced by one space.
\<close>

function collapse_whitespace :: "char_tables \<Rightarrow> ustring \<Rightarrow> ustring" where
  "collapse_whitespace U [] = []"
| "collapse_whitespace U (c # cs) =
     (if space_char U c then SPACE # collapse_whitespace U (dropWhile (space_char U) cs)
      else c # collapse_whitespace U cs)"
  by pat_completeness auto
termination
  by (relation "measure (\<lambda>(U, cs). length cs)")
     (auto simp: less_Suc_eq_le length_dropWhile_le)

text \<open>\<^verbatim>\<open>text.strip()\<close>: leading and trailing whitespace characters are dropped.\<close>

definition strip :: "char_tables \<Rightarrow> ustring \<Rightarrow> ustring" where
  "strip U text = rev (dropWhile (space_char U) (rev (dropWhile (space_char U) text)))"

text \<open>
  The character class of the third substitution, in the order of the source:
  U+7684, U+4E86, U+662F, U+5F88, U+6211, U+6709, U+548C, U+4E5F, U+5427, U+554A,
  U+4F60, U+4ED6, U+5979.
\<close>

definition stopwords :: "uchar list" where
  "stopwords = [30340, 20102, 26159, 24456, 25105, 26377, 21644, 20063, 21543, 21834,
                20320, 20182, 22905]"

definition remove_stopwords :: "ustring \<Rightarrow> ustring" where
  "remove_stopwords text = filter (\<lambda>c. c \<notin> set stopwords) text"

text \<open>The text after the first two statements of \<^verbatim>\<open>preprocess_text\<close>.\<close>

definition clean_text :: "char_tables \<Rightarrow> ustring \<Rightarrow> ustring" where
  "clean_text U text = strip U (collapse_whitespace U (remove_punctuation U text))"

definition preprocess_text :: "char_tables \<Rightarrow> ustring \<Rightarrow> ustring" where
  "preprocess_text U text =
     (let text = clean_text U text
      in if length text > 800 then remove_stopwords text else text)"

text \<open>
  A fragment of the runtime's tables for evaluating concrete inputs: the whitespace
  class is Python's whole whitespace set; the word class is restricted to ASCII letters,
  digits, the underscore and the CJK Unified Ideographs block U+4E00..U+9FFF, on which it
  agrees with \<^verbatim>\<open>\w\<close>.
\<close>

definition basic_space :: "uchar \<Rightarrow> bool" where
  "basic_space c \<longleftrightarrow>
     (9 \<le> c \<and> c \<le> 13) \<or> (28 \<le> c \<and> c \<le> 32) \<or> c = 133 \<or> c = 160 \<or> c = 5760 \<or>
     (8192 \<le> c \<and> c \<le> 8202) \<or> c = 8232 \<or> c = 8233 \<or> c = 8239 \<or> c = 8287 \<or> c = 12288"

definition basic_word :: "uchar \<Rightarrow> bool" where
  "basic_word c \<longleftrightarrow>
     (48 \<le> c \<and> c \<le> 57) \<or> (65 \<le> c \<and> c \<le> 90) \<or> c = 95 \<or> (97 \<le> c \<and> c \<le> 122) \<or>
     (19968 \<le> c \<and> c \<le> 40959)"

definition basic_tables :: char_tables where
  "basic_tables = \<lparr>word_char = basic_word, space_char = basic_space\<rparr>"

subsection \<open>Properties of normalized text\<close>

definition no_punctuation :: "char_tables \<Rightarrow> ustring \<Rightarrow> bool" where
  "no_punctuation U text = list_all (\<lambda>c. word_char U c \<or> space_char U c) text"

text \<open>No two adjacent whitespace characters.\<close>

fun no_space_run :: "char_tables \<Rightarrow> ustring \<Rightarrow> bool" where
  "no_space_run U (a # b # cs) =
     (\<not> (space_char U a \<and> space_char U b) \<and> no_space_run U (b # cs))"
| "no_space_run U cs = True"

text \<open>Every whitespace character is the ASCII space.\<close>

definition only_plain_spaces :: "char_tables \<Rightarrow> ustring \<Rightarrow> bool" where
  "only_plain_spaces U text = list_all (\<lambda>c. space_char U c \<longrightarrow> c = SPACE) text"

text \<open>Neither the first nor the last character is whitespace.\<close>

definition trimmed :: "char_tables \<Rightarrow> ustring \<Rightarrow> bool" where
  "trimmed U text =
     (text \<noteq> [] \<longrightarrow> \<not> space_char U (hd text) \<and> \<not> space_char U (last text))"

text \<open>
  An already normalized text: the above, and no stopword character if the text is longer
  than 800 characters.
\<close>

definition normalized_text :: "char_tables \<Rightarrow> ustring \<Rightarrow> bool" where
  "normalized_text U cs \<longleftrightarrow>
     no_punctuation U cs \<and> no_space_run U cs \<and> only_plain_spaces U cs \<and> trimmed U cs \<and>
     (800 < length cs \<longrightarrow> list_all (\<lambda>c. c \<notin> set stopwords) cs)"


section \<open>Errors\<close>

text \<open>
  The exceptions the pipeline can raise. \<^verbatim>\<open>ValueError\<close> is raised by
  \<^verbatim>\<open>calculate_similarity\<close> itself for an empty document and by \<^verbatim>\<open>list.index\<close> for a
  missing element; the two differ in their message.
\<close>

datatype error_message = EmptyFile | NotInList

datatype py_error =
    FileNotFoundError
  | ValueError error_message
  | IndexError
  | ZeroDivisionError

section \<open>Tokens and term vectors\<close>

subsection \<open>\<^verbatim>\<open>segment_text\<close>\<close>

text \<open>
  \<^verbatim>\<open>jieba.lcut(text, cut_all=True)\<close> is a call into the segmentation library with its
  dictionary: a parameter \<open>lcut\<close>. The comprehension keeps the words for which
  \<^verbatim>\<open>word.strip()\<close> is not the empty string.
\<close>

definition segment_text :: "char_tables \<Rightarrow> (ustring \<Rightarrow> ustring list) \<Rightarrow> ustring \<Rightarrow> ustring list" where
  "segment_text U lcut text = (let words = lcut text in filter (\<lambda>word. strip U word \<noteq> []) words)"

text \<open>A sample segmenter for evaluating concrete inputs: every character is a word.\<close>

definition single_char_cut :: "ustring \<Rightarrow> ustring list" where
  "single_char_cut text = map (\<lambda>c. [c]) text"

subsection \<open>\<^verbatim>\<open>calculate_term_frequency\<close>\<close>

text \<open>
  \<^verbatim>\<open>Counter(words)\<close>: a dictionary from word to count, in the order of first occurrence;
  an association list with one entry per key.
\<close>

fun counter_add :: "'a \<Rightarrow> ('a \<times> int) list \<Rightarrow> ('a \<times> int) list" where
  "counter_add w [] = [(w, 1)]"
| "counter_add w ((k, c) # kcs) =
     (if k = w then (k, c + 1) # kcs else (k, c) # counter_add w kcs)"

definition calculate_term_frequency :: "'a list \<Rightarrow> ('a \<times> int) list" where
  "calculate_term_frequency words = fold counter_add words []"

subsection \<open>\<^verbatim>\<open>text_to_vector\<close>\<close>

text \<open>\<^verbatim>\<open>vocabulary.index(word)\<close>: the first position of the word, \<^verbatim>\<open>ValueError\<close> if absent.\<close>

fun list_index :: "'a list \<Rightarrow> 'a \<Rightarrow> py_error + nat" where
  "list_index [] w = Inl (ValueError NotInList)"
| "list_index (v # vs) w =
     (if v = w then Inr 0
      else case list_index vs w of Inl e \<Rightarrow> Inl e | Inr i \<Rightarrow> Inr (Suc i))"

text \<open>\<^verbatim>\<open>vector[idx] = count\<close> with a non-negative index: \<^verbatim>\<open>IndexError\<close> out of range.\<close>

definition list_store :: "'a list \<Rightarrow> nat \<Rightarrow> 'a \<Rightarrow> py_error + 'a list" where
  "list_store vector idx count =
     (if idx < length vector then Inr (vector[idx := count]) else Inl IndexError)"

text \<open>The loop over \<^verbatim>\<open>word_count.items()\<close>.\<close>

fun fill_vector :: "('a \<times> int) list \<Rightarrow> 'a list \<Rightarrow> int list \<Rightarrow> py_error + int list" where
  "fill_vector [] vocabulary vector = Inr vector"
| "fill_vector ((word, count) # items) vocabulary vector =
     (if word \<in> set vocabulary then
        (case list_index vocabulary word of
           Inl e \<Rightarrow> Inl e
         | Inr idx \<Rightarrow>
            (case list_store vector idx count of
               Inl e \<Rightarrow> Inl e
             | Inr vector' \<Rightarrow> fill_vector items vocabulary vector'))
      else fill_vector items vocabulary vector)"

definition text_to_vector :: "'a list \<Rightarrow> 'a list \<Rightarrow> py_error + int list" where
  "text_to_vector words vocabulary =
     (let vector = replicate (length vocabulary) 0;
          word_count = calculate_term_frequency words
      in fill_vector word_count vocabulary vector)"

section \<open>Floating-point numbers\<close>

text \<open>
  A Python \<^verbatim>\<open>float\<close> is an IEEE 754 binary64 number. A finite float is the rational number
  it denotes; the conversion from an integer and the arithmetic operations compute the
  exact result and round it to the nearest number with a significand of 53 bits, ties to
  even (the power \<^verbatim>\<open>x ** 0.5\<close> is treated apart, below). The exponent range is not limited
  here: binary64 agrees with this on all results of magnitude between \<open>2 powi - 1022\<close>
  and \<open>2 powi 1024\<close>, which covers every value the pipeline computes from term
  vectors whose sums of squares stay below \<open>2 ^ 53\<close>. Infinities, NaN and the
  \<^verbatim>\<open>OverflowError\<close> of \<^verbatim>\<open>float(i)\<close> and \<^verbatim>\<open>x ** 2\<close> need magnitudes beyond that range and
  are not modelled.
\<close>

type_synonym pyfloat = rat

text \<open>\<open>ilog2 x\<close> is the exponent \<open>e\<close> with \<open>2 powi e \<le> \<bar>x\<bar> < 2 powi (e + 1)\<close>, for \<open>x \<noteq> 0\<close>.\<close>

definition ilog2 :: "rat \<Rightarrow> int" where
  "ilog2 x =
     (let (p, q) = quotient_of \<bar>x\<bar>;
          k = bitlen p - bitlen q
      in if 2 powi k \<le> \<bar>x\<bar> then k else k - 1)"

definition round_half_even :: "rat \<Rightarrow> int" where
  "round_half_even x =
     (let f = \<lfloor>x\<rfloor>; d = x - of_int f
      in if d < 1 / 2 then f else if 1 / 2 < d then f + 1
         else if even f then f else f + 1)"

definition fl :: "rat \<Rightarrow> pyfloat" where
  "fl x =
     (if x = 0 then 0
      else let u = 2 powi (ilog2 x - 52) in of_int (round_half_even (x / u)) * u)"

text \<open>
  \<^verbatim>\<open>float(i)\<close> for an integer; the float operators \<^verbatim>\<open>+\<close>, \<^verbatim>\<open>-\<close>, \<^verbatim>\<open>*\<close> and \<^verbatim>\<open>x ** 2\<close>.
  The square is taken as the rounded exact square; the theorems that depend on its value
  use it on floats of integers whose square is at most \<open>2 ^ 53\<close>, where the exact
  square is itself a float.
\<close>

definition float_of_int :: "int \<Rightarrow> pyfloat" where
  "float_of_int i = fl (of_int i)"

definition fadd :: "pyfloat \<Rightarrow> pyfloat \<Rightarrow> pyfloat" where
  "fadd x y = fl (x + y)"

definition fsub :: "pyfloat \<Rightarrow> pyfloat \<Rightarrow> pyfloat" where
  "fsub x y = fl (x - y)"

definition fmul :: "pyfloat \<Rightarrow> pyfloat \<Rightarrow> pyfloat" where
  "fmul x y = fl (x * y)"

definition fsquare :: "pyfloat \<Rightarrow> pyfloat" where
  "fsquare x = fl (x * x)"

text \<open>The float operator \<^verbatim>\<open>/\<close>, and \<^verbatim>\<open>/\<close> on two integers, which rounds the exact quotient once.\<close>

definition fdiv :: "pyfloat \<Rightarrow> pyfloat \<Rightarrow> py_error + pyfloat" where
  "fdiv x y = (if y = 0 then Inl ZeroDivisionError else Inr (fl (x / y)))"

definition int_truediv :: "int \<Rightarrow> int \<Rightarrow> py_error + pyfloat" where
  "int_truediv a b = (if b = 0 then Inl ZeroDivisionError else Inr (fl (of_int a / of_int b)))"

text \<open>The largest \<open>r\<close> with \<open>r * r \<le> n\<close>, digit by digit from bit \<open>k - 1\<close> down.\<close>

fun sqrt_bits :: "nat \<Rightarrow> int \<Rightarrow> int \<Rightarrow> int" where
  "sqrt_bits 0 r n = r"
| "sqrt_bits (Suc k) r n =
     (if (r + 2 ^ k) * (r + 2 ^ k) \<le> n then sqrt_bits k (r + 2 ^ k) n else sqrt_bits k r n)"

definition isqrt :: "int \<Rightarrow> int" where
  "isqrt n = sqrt_bits (nat (bitlen n)) 0 n"

text \<open>
  \<^verbatim>\<open>x ** 0.5\<close> on a float is computed by the \<^verbatim>\<open>pow\<close> function of the C library the
  interpreter is linked with. Neither the repository nor IEEE 754 fixes its result, and it
  is not always the correctly rounded square root (a common library returns
  \<^verbatim>\<open>59.506302187247364\<close> for \<^verbatim>\<open>3541.0 ** 0.5\<close>, one unit in the last place above
  it). It is a parameter of \<^verbatim>\<open>calculate_cosine_similarity\<close> below, a function from floats
  to floats. The source applies it to sums of squares only; a negative argument (for
  which Python returns a complex number) does not occur.

  \<open>root_within eps x r\<close> says how near a returned value \<open>r\<close> is to the square root of
  \<open>x\<close>: \<open>r\<close> is positive and the root lies between \<open>r * (1 - eps)\<close> and
  \<open>r * (1 + eps)\<close>. With \<open>eps = 1 / 2 ^ 52\<close> this holds of every float that is less than
  one unit in its last place away from the root.
\<close>

definition root_within :: "rat \<Rightarrow> pyfloat \<Rightarrow> pyfloat \<Rightarrow> bool" where
  "root_within eps x r \<longleftrightarrow>
     0 < r \<and> (r * (1 - eps)) * (r * (1 - eps)) \<le> x \<and> x \<le> (r * (1 + eps)) * (r * (1 + eps))"

text \<open>
  A sample of such a function for evaluating concrete inputs: the correctly rounded
  square root. With \<open>u\<close> the unit in the last place of the root and \<open>s\<close> the integer part
  of \<open>sqrt x / u\<close>, the root is nearer to \<open>s * u\<close> than to \<open>(s + 1) * u\<close> iff
  \<open>x / (u * u) < s * s + s + 1 / 4\<close>. The library function mentioned above agrees with
  it at 0, 1, 2, 3, 5, 13 and 14, the arguments of the concrete evaluations below.
\<close>

definition fsqrt :: "pyfloat \<Rightarrow> pyfloat" where
  "fsqrt x =
     (if x \<le> 0 then 0
      else let e = ilog2 x div 2;
               u = 2 powi (e - 52);
               y = x / (u * u);
               s = isqrt \<lfloor>y\<rfloor>;
               h = of_int (s * s + s) + 1 / 4
           in of_int (if y < h then s else if h < y then s + 1
                      else if even s then s else s + 1) * u)"

text \<open>
  The builtin \<^verbatim>\<open>sum\<close> over floats: the items are added from the left, starting from the
  integer 0. (Runtimes that compensate the rounding of the partial sums agree with this
  whenever the partial sums are exact.)
\<close>

definition py_sum :: "pyfloat list \<Rightarrow> pyfloat" where
  "py_sum xs = foldl fadd 0 xs"

section \<open>The similarity measures\<close>

subsection \<open>\<^verbatim>\<open>calculate_edit_distance_similarity\<close>\<close>

text \<open>
  Modelled from the spec: \<^verbatim>\<open>Levenshtein.distance\<close>, a function of the imported package
  \<^verbatim>\<open>Levenshtein\<close>, which is not in the repository. It is the least number of
  single-character insertions, deletions and substitutions, each of cost one, that turn
  the first sequence into the second, computed by the usual recurrence on the two heads.
\<close>

fun levenshtein_distance :: "'a list \<Rightarrow> 'a list \<Rightarrow> nat" where
  "levenshtein_distance [] ys = length ys"
| "levenshtein_distance xs [] = length xs"
| "levenshtein_distance (x # xs) (y # ys) =
     min (min (levenshtein_distance xs (y # ys) + 1) (levenshtein_distance (x # xs) ys + 1))
         (levenshtein_distance xs ys + (if x = y then 0 else 1))"

definition calculate_edit_distance_similarity :: "ustring \<Rightarrow> ustring \<Rightarrow> py_error + pyfloat" where
  "calculate_edit_distance_similarity text1 text2 =
     (let edit_distance = levenshtein_distance text1 text2;
          max_length = max (length text1) (length text2)
      in if max_length = 0 then Inr 1
         else case int_truediv (int edit_distance) (int max_length) of
                Inl e \<Rightarrow> Inl e
              | Inr q \<Rightarrow> Inr (fsub 1 q))"

subsection \<open>\<^verbatim>\<open>calculate_cosine_similarity\<close>\<close>

text \<open>The first argument \<open>pw\<close> is the runtime's \<^verbatim>\<open>x ** 0.5\<close>.\<close>

definition calculate_cosine_similarity ::
  "(pyfloat \<Rightarrow> pyfloat) \<Rightarrow> int list \<Rightarrow> int list \<Rightarrow> py_error + pyfloat" where
  "calculate_cosine_similarity pw vec1 vec2 =
     (let vec1 = map float_of_int vec1;
          vec2 = map float_of_int vec2;
          dot_product = py_sum (map (\<lambda>(x, y). fmul x y) (zip vec1 vec2));
          magnitude1 = pw (py_sum (map fsquare vec1));
          magnitude2 = pw (py_sum (map fsquare vec2))
      in if magnitude1 = 0 \<or> magnitude2 = 0 then Inr 0
         else fdiv dot_product (fmul magnitude1 magnitude2))"

text \<open>
  The exact integer values that the float sums of \<^verbatim>\<open>calculate_cosine_similarity\<close>
  approximate: the dot product of two integer vectors (over the pairs that \<^verbatim>\<open>zip\<close>
  yields) and the sum of the squares of one.
\<close>

definition dot_product :: "int list \<Rightarrow> int list \<Rightarrow> int" where
  "dot_product vec1 vec2 = sum_list (map (\<lambda>(x, y). x * y) (zip vec1 vec2))"

definition sum_squares :: "int list \<Rightarrow> int" where
  "sum_squares vec = sum_list (map (\<lambda>x. x * x) vec)"

section \<open>The pipeline\<close>

text \<open>
  What \<^verbatim>\<open>calculate_similarity\<close> takes from its environment: the Unicode tables, the
  segmenter, the order in which \<^verbatim>\<open>list(set(words))\<close> enumerates a set built from a list
  (fixed by the runtime's hashing), the runtime's \<^verbatim>\<open>x ** 0.5\<close>, and the files, as decoded
  text by path.
\<close>

record env =
  tables :: char_tables
  jieba_lcut :: "ustring \<Rightarrow> ustring list"
  set_to_list :: "ustring list \<Rightarrow> ustring list"
  pow_half :: "pyfloat \<Rightarrow> pyfloat"
  files :: "string \<rightharpoonup> ustring"

definition read_file :: "env \<Rightarrow> string \<Rightarrow> py_error + ustring" where
  "read_file E file_path =
     (case files E file_path of None \<Rightarrow> Inl FileNotFoundError | Some content \<Rightarrow> Inr content)"

text \<open>
  The statements of \<^verbatim>\<open>calculate_similarity\<close> after the check for empty texts, as a
  function of the two preprocessed texts. The source prints the two similarities before
  it returns; the console is not modelled.
\<close>

definition compare_texts ::
  "env \<Rightarrow> ustring \<Rightarrow> ustring \<Rightarrow> pyfloat \<Rightarrow> pyfloat \<Rightarrow> py_error + pyfloat" where
  "compare_texts E processed_text1 processed_text2 cosine_weight edit_distance_weight =
     (let text1_words = segment_text (tables E) (jieba_lcut E) processed_text1;
          text2_words = segment_text (tables E) (jieba_lcut E) processed_text2;
          vocabulary = set_to_list E (text1_words @ text2_words)
      in case text_to_vector text1_words vocabulary of
           Inl e \<Rightarrow> Inl e
         | Inr vector1 \<Rightarrow>
        (case text_to_vector text2_words vocabulary of
           Inl e \<Rightarrow> Inl e
         | Inr vector2 \<Rightarrow>
        (case calculate_cosine_similarity (pow_half E) vector1 vector2 of
           Inl e \<Rightarrow> Inl e
         | Inr cosine_similarity \<Rightarrow>
        (case calculate_edit_distance_similarity processed_text1 processed_text2 of
           Inl e \<Rightarrow> Inl e
         | Inr edit_similarity \<Rightarrow>
             Inr (fadd (fmul cosine_weight cosine_similarity)
                       (fmul edit_distance_weight edit_similarity))))))"

definition calculate_similarity ::
  "env \<Rightarrow> string \<Rightarrow> string \<Rightarrow> pyfloat \<Rightarrow> pyfloat \<Rightarrow> py_error + pyfloat" where
  "calculate_similarity E file_path1 file_path2 cosine_weight edit_distance_weight =
     (case read_file E file_path1 of
        Inl e \<Rightarrow> Inl e
      | Inr raw_text1 \<Rightarrow>
     (case read_file E file_path2 of
        Inl e \<Rightarrow> Inl e
      | Inr raw_text2 \<Rightarrow>
         (let processed_text1 = preprocess_text (tables E) raw_text1;
              processed_text2 = preprocess_text (tables E) raw_text2
          in if processed_text1 = [] \<or> processed_text2 = [] then Inl (ValueError EmptyFile)
             else compare_texts E processed_text1 processed_text2
                    cosine_weight edit_distance_weight)))"

text \<open>The default weights \<^verbatim>\<open>0.7\<close> and \<^verbatim>\<open>0.3\<close>, as the floats the literals denote.\<close>

definition default_cosine_weight :: pyfloat where
  "default_cosine_weight = fl (7 / 10)"

definition default_edit_distance_weight :: pyfloat where
  "default_edit_distance_weight = fl (3 / 10)"

text \<open>
  A sample environment for evaluating concrete calls: the table fragment, the
  one-character segmenter, \<open>remdups\<close> as the enumeration order, the sample power
  function, and four files (U+6D4B, the same, U+6D4B U+8BD5, and an empty file).
\<close>

definition sample_env :: env where
  "sample_env = \<lparr>tables = basic_tables, jieba_lcut = single_char_cut, set_to_list = remdups,
     pow_half = fsqrt, files = [''orig.txt'' \<mapsto> [27979], ''copy.txt'' \<mapsto> [27979],
              ''other.txt'' \<mapsto> [27979, 35797], ''empty.txt'' \<mapsto> []]\<rparr>"

section \<open>Verification: text normalization\<close>

subsection \<open>Whitespace collapsing and stripping\<close>

lemma no_space_run_Cons:
  "no_space_run U (a # xs) =
     ((xs \<noteq> [] \<longrightarrow> \<not> (space_char U a \<and> space_char U (hd xs))) \<and> no_space_run U xs)"
  by (cases xs) auto

lemma no_space_run_append:
  "no_space_run U (xs @ ys) \<Longrightarrow> no_space_run U xs \<and> no_space_run U ys"
  by (induction U xs rule: no_space_run.induct) (auto simp: no_space_run_Cons)

lemma no_space_run_snoc:
  "no_space_run U (xs @ [a]) =
     ((xs \<noteq> [] \<longrightarrow> \<not> (space_char U (last xs) \<and> space_char U a)) \<and> no_space_run U xs)"
  by (induction U xs rule: no_space_run.induct) (auto simp: no_space_run_Cons)

lemma no_space_run_rev: "no_space_run U (rev xs) = no_space_run U xs"
  by (induction xs) (auto simp: no_space_run_Cons no_space_run_snoc last_rev hd_rev)

lemma collapse_Nil_iff: "collapse_whitespace U cs = [] \<longleftrightarrow> cs = []"
  by (cases cs) auto

lemma hd_collapse:
  "cs \<noteq> [] \<Longrightarrow> \<not> space_char U (hd cs) \<Longrightarrow> hd (collapse_whitespace U cs) = hd cs"
  by (cases cs) auto

lemma no_space_run_collapse:
  "no_space_run U (collapse_whitespace U cs)"
proof (induction U cs rule: collapse_whitespace.induct)
  case (1 U)
  then show ?case by simp
next
  case (2 U c cs)
  show ?case
  proof (cases "space_char U c")
    case True
    let ?d = "dropWhile (space_char U) cs"
    have "?d \<noteq> [] \<Longrightarrow> \<not> space_char U (hd (collapse_whitespace U ?d))"
      using hd_collapse [of ?d U] hd_dropWhile [of "space_char U" cs] by simp
    with True 2 show ?thesis
      by (simp add: no_space_run_Cons collapse_Nil_iff)
  next
    case False
    with 2 show ?thesis by (auto simp: no_space_run_Cons)
  qed
qed

lemma set_collapse:
  "set (collapse_whitespace U cs) \<subseteq> insert SPACE {c \<in> set cs. \<not> space_char U c}"
proof (induction U cs rule: collapse_whitespace.induct)
  case (1 U)
  then show ?case by simp
next
  case (2 U c cs)
  have "set (dropWhile (space_char U) cs) \<subseteq> set cs"
    by (simp add: set_dropWhileD subsetI)
  with 2 show ?case by auto
qed

lemma strip_prefix_suffix:
  "\<exists>ps ss. text = ps @ strip U text @ ss"
proof -
  let ?P = "space_char U"
  let ?d = "dropWhile ?P text"
  have "text = takeWhile ?P text @ ?d" by simp
  moreover have "rev ?d = takeWhile ?P (rev ?d) @ dropWhile ?P (rev ?d)" by simp
  then have "?d = rev (dropWhile ?P (rev ?d)) @ rev (takeWhile ?P (rev ?d))"
    by (metis rev_append rev_rev_ident)
  ultimately have "text = takeWhile ?P text @ strip U text @ rev (takeWhile ?P (rev ?d))"
    by (simp add: strip_def)
  then show ?thesis by blast
qed

lemma trimmed_strip: "trimmed U (strip U text)"
proof (cases "strip U text")
  case Nil
  then show ?thesis by (simp add: trimmed_def)
next
  case (Cons c cs)
  let ?P = "space_char U"
  let ?d = "dropWhile ?P text"
  let ?e = "dropWhile ?P (rev ?d)"
  have e: "?e \<noteq> []" using Cons by (auto simp: strip_def)
  then have 1: "\<not> ?P (hd ?e)" by (metis hd_dropWhile)
  have last: "last (strip U text) = hd ?e" using e by (simp add: strip_def last_rev)
  have "?d \<noteq> []" using e by (metis dropWhile.simps(1) rev.simps(1))
  then have 2: "\<not> ?P (hd ?d)" by (metis hd_dropWhile)
  have "rev ?d = takeWhile ?P (rev ?d) @ ?e" by simp
  then have "?d = rev ?e @ rev (takeWhile ?P (rev ?d))"
    by (metis rev_append rev_rev_ident)
  then have "hd ?d = hd (rev ?e)" using e by (metis hd_append2 rev_is_Nil_conv)
  then have "hd (strip U text) = hd ?d" by (simp add: strip_def)
  with 1 2 last show ?thesis by (simp add: trimmed_def)
qed

lemma set_strip: "set (strip U text) \<subseteq> set text"
  using strip_prefix_suffix [of "text" U] by (metis Un_upper1 Un_upper2 set_append subset_trans)

lemma no_space_run_strip: "no_space_run U text \<Longrightarrow> no_space_run U (strip U text)"
  using strip_prefix_suffix [of "text" U] by (metis no_space_run_append)

lemma strip_id: "trimmed U text \<Longrightarrow> strip U text = text"
proof (cases "text = []")
  case True
  then show ?thesis by (simp add: strip_def)
next
  case False
  assume "trimmed U text"
  with False have h: "\<not> space_char U (hd text)" and l: "\<not> space_char U (last text)"
    by (simp_all add: trimmed_def)
  from h have 1: "dropWhile (space_char U) text = text"
    by (simp add: dropWhile_eq_self_iff)
  from l False have 2: "dropWhile (space_char U) (rev text) = rev text"
    by (simp add: dropWhile_eq_self_iff hd_rev)
  show ?thesis by (simp add: strip_def 1 2)
qed

lemma collapse_id:
  "no_space_run U text \<Longrightarrow> only_plain_spaces U text \<Longrightarrow> collapse_whitespace U text = text"
proof (induction U "text" rule: collapse_whitespace.induct)
  case (1 U)
  then show ?case by simp
next
  case (2 U c cs)
  then show ?case
    by (cases cs) (auto simp: only_plain_spaces_def)
qed

lemma remove_punctuation_id: "no_punctuation U text \<Longrightarrow> remove_punctuation U text = text"
  by (simp add: no_punctuation_def remove_punctuation_def list_all_iff)


lemma only_plain_spaces_collapse: "only_plain_spaces U (collapse_whitespace U cs)"
  using set_collapse [of U cs] by (auto simp: only_plain_spaces_def list_all_iff)

lemma no_punctuation_collapse:
  "space_char U SPACE \<Longrightarrow> no_punctuation U cs \<Longrightarrow> no_punctuation U (collapse_whitespace U cs)"
  using set_collapse [of U cs] by (auto simp: no_punctuation_def list_all_iff)

lemma no_punctuation_remove: "no_punctuation U (remove_punctuation U cs)"
  by (simp add: no_punctuation_def remove_punctuation_def list_all_iff)

lemma no_punctuation_strip: "no_punctuation U cs \<Longrightarrow> no_punctuation U (strip U cs)"
  using set_strip [of U cs] by (auto simp: no_punctuation_def list_all_iff)

lemma only_plain_spaces_strip: "only_plain_spaces U cs \<Longrightarrow> only_plain_spaces U (strip U cs)"
  using set_strip [of U cs] by (auto simp: only_plain_spaces_def list_all_iff)

lemma clean_text_normal:
  "no_space_run U (clean_text U cs)" "only_plain_spaces U (clean_text U cs)"
  "trimmed U (clean_text U cs)"
  "space_char U SPACE \<Longrightarrow> no_punctuation U (clean_text U cs)"
  unfolding clean_text_def
  by (simp_all add: no_space_run_strip no_space_run_collapse only_plain_spaces_strip
      only_plain_spaces_collapse trimmed_strip no_punctuation_strip no_punctuation_collapse
      no_punctuation_remove)

lemma clean_text_id:
  "no_punctuation U cs \<Longrightarrow> no_space_run U cs \<Longrightarrow> only_plain_spaces U cs \<Longrightarrow> trimmed U cs
   \<Longrightarrow> clean_text U cs = cs"
  by (simp add: clean_text_def remove_punctuation_id collapse_id strip_id)

lemma no_punctuation_remove_stopwords:
  "no_punctuation U cs \<Longrightarrow> no_punctuation U (remove_stopwords cs)"
  by (auto simp: no_punctuation_def remove_stopwords_def list_all_iff)

lemma set_remove_stopwords: "set (remove_stopwords cs) \<inter> set stopwords = {}"
  by (auto simp: remove_stopwords_def)

lemma remove_stopwords_id: "set cs \<inter> set stopwords = {} \<Longrightarrow> remove_stopwords cs = cs"
  by (auto simp: remove_stopwords_def filter_id_conv)

lemma no_space_word_text:
  assumes "\<forall>c\<in>set cs. \<not> space_char U c"
  shows "no_space_run U cs" "only_plain_spaces U cs" "trimmed U cs"
proof -
  show "no_space_run U cs" using assms
    by (induction U cs rule: no_space_run.induct) auto
  show "only_plain_spaces U cs" using assms by (simp add: only_plain_spaces_def list_all_iff)
  show "trimmed U cs" using assms by (auto simp: trimmed_def)
qed

subsection \<open>The normal form of the output\<close>

text \<open>
  C1 (as amended). Provided the space is a whitespace character, the output of
  \<^verbatim>\<open>preprocess_text\<close> contains no punctuation character, whatever the input. The text
  before the stopword removal has no two adjacent whitespace characters, no whitespace
  other than the space and no leading or trailing whitespace, and so has the output
  whenever that text has at most 800 characters, that is, whenever no stopword is
  removed.
\<close>

theorem preprocess_text_normalized:
  assumes "space_char U SPACE"
  shows "no_punctuation U (preprocess_text U cs) \<and>
         no_space_run U (clean_text U cs) \<and> only_plain_spaces U (clean_text U cs) \<and>
         trimmed U (clean_text U cs) \<and>
         (length (clean_text U cs) \<le> 800 \<longrightarrow>
            no_space_run U (preprocess_text U cs) \<and> only_plain_spaces U (preprocess_text U cs) \<and>
            trimmed U (preprocess_text U cs))"
  using assms
  by (simp add: preprocess_text_def Let_def clean_text_normal no_punctuation_remove_stopwords)

lemma set_clean_text: "set (clean_text U cs) \<subseteq> insert SPACE (set cs)"
proof -
  have "set (clean_text U cs) \<subseteq> set (collapse_whitespace U (remove_punctuation U cs))"
    by (simp add: clean_text_def set_strip)
  also have "\<dots> \<subseteq> insert SPACE (set (remove_punctuation U cs))"
    using set_collapse [of U "remove_punctuation U cs"] by auto
  also have "\<dots> \<subseteq> insert SPACE (set cs)"
    by (auto simp: remove_punctuation_def)
  finally show ?thesis .
qed


lemma preprocess_text_short:
  "length (clean_text U cs) \<le> 800 \<Longrightarrow> preprocess_text U cs = clean_text U cs"
  by (simp add: preprocess_text_def)

lemma preprocess_text_no_stopwords:
  assumes "set cs \<inter> set stopwords = {}"
  shows "preprocess_text U cs = clean_text U cs"
proof -
  have "SPACE \<notin> set stopwords" by (simp add: SPACE_def stopwords_def)
  with assms set_clean_text [of U cs] have "set (clean_text U cs) \<inter> set stopwords = {}"
    by auto
  then show ?thesis by (simp add: preprocess_text_def Let_def remove_stopwords_id)
qed

lemma basic_tables_simps:
  "space_char basic_tables = basic_space" "word_char basic_tables = basic_word"
  by (simp_all add: basic_tables_def)

lemma basic_chars:
  "basic_space SPACE" "\<not> basic_word SPACE" "basic_word 97" "\<not> basic_space 97"
  "basic_word 98" "\<not> basic_space 98" "basic_word 30340" "\<not> basic_space 30340"
  by (simp_all add: basic_space_def basic_word_def SPACE_def)


text \<open>
  C1 as stated fails for long texts: the stopwords are removed after the whitespace has
  been collapsed and stripped, so the spaces around a removed stopword become adjacent or
  leading. The input is U+7684, space, U+7684, space and 800 letters \<^verbatim>\<open>a\<close>.
\<close>

theorem preprocess_text_normalized_counterexample:
  "\<not> no_space_run basic_tables
       (preprocess_text basic_tables ([30340, 32, 30340, 32] @ replicate 800 97)) \<and>
   \<not> trimmed basic_tables
       (preprocess_text basic_tables ([30340, 32, 30340, 32] @ replicate 800 97))"
proof -
  let ?U = basic_tables
  let ?x = "[30340, 32, 30340, 32] @ replicate 800 97"
  have sp: "basic_space 32" "\<not> basic_space 97" "\<not> basic_space 30340"
    "basic_word 97" "basic_word 30340"
    by (simp_all add: basic_space_def basic_word_def)
  have r: "no_space_run ?U (replicate 800 97)"
    by (rule no_space_word_text) (simp add: basic_tables_simps sp)
  have "clean_text ?U ?x = ?x"
  proof (rule clean_text_id)
    show "no_punctuation ?U ?x"
      by (simp add: no_punctuation_def basic_tables_simps sp list_all_iff)
    show "no_space_run ?U ?x"
      using r by (simp add: no_space_run_Cons basic_tables_simps sp)
    show "only_plain_spaces ?U ?x"
      by (simp add: only_plain_spaces_def basic_tables_simps sp list_all_iff SPACE_def)
    show "trimmed ?U ?x"
      by (simp add: trimmed_def basic_tables_simps sp)
  qed
  then have "preprocess_text ?U ?x = remove_stopwords ?x"
    by (simp add: preprocess_text_def)
  also have "\<dots> = [32, 32] @ replicate 800 97"
    by (simp add: remove_stopwords_def stopwords_def)
  finally show ?thesis
    by (simp add: trimmed_def basic_tables_simps sp)
qed

theorem preprocess_text_normalized_witness:
  "space_char basic_tables SPACE \<and>
   preprocess_text basic_tables [32, 32, 97, 44, 32, 98, 32, 32, 10] = [97, 32, 98] \<and>
   length (clean_text basic_tables [32, 32, 97, 44, 32, 98, 32, 32, 10]) \<le> 800 \<and>
   no_punctuation basic_tables [97, 32, 98] \<and> no_space_run basic_tables [97, 32, 98] \<and>
   only_plain_spaces basic_tables [97, 32, 98] \<and> trimmed basic_tables [97, 32, 98]"
proof -
  have s: "space_char basic_tables SPACE" by (simp add: basic_tables_simps basic_chars)
  have c: "clean_text basic_tables [32, 32, 97, 44, 32, 98, 32, 32, 10] = [97, 32, 98]"
    by (simp add: clean_text_def remove_punctuation_def strip_def basic_tables_simps
        basic_space_def basic_word_def SPACE_def)
  then have p: "preprocess_text basic_tables [32, 32, 97, 44, 32, 98, 32, 32, 10] = [97, 32, 98]"
    by (simp add: preprocess_text_def)
  from preprocess_text_normalized [OF s, of "[32, 32, 97, 44, 32, 98, 32, 32, 10]"] s c p
  show ?thesis by simp
qed


subsection \<open>The stopword threshold\<close>









subsection \<open>Fixed points\<close>

text \<open>
  C9 (as amended). A text that is already normalized (no punctuation, single spaces, no
  leading or trailing whitespace, no stopword if it is longer than 800 characters) is a
  fixed point of \<^verbatim>\<open>preprocess_text\<close>. When the text before the stopword removal has at
  most 800 characters, the output is normalized in this sense, and normalizing it again
  returns it unchanged.
\<close>

theorem preprocess_text_fixed_point:
  "(normalized_text U cs \<longrightarrow> preprocess_text U cs = cs) \<and>
   (space_char U SPACE \<and> length (clean_text U cs) \<le> 800 \<longrightarrow>
      normalized_text U (preprocess_text U cs) \<and>
      preprocess_text U (preprocess_text U cs) = preprocess_text U cs)"
proof (intro conjI impI)
  assume n: "normalized_text U cs"
  then have c: "clean_text U cs = cs" by (simp add: normalized_text_def clean_text_id)
  from n have "800 < length cs \<Longrightarrow> remove_stopwords cs = cs"
    by (intro remove_stopwords_id) (auto simp: normalized_text_def list_all_iff)
  with c show "preprocess_text U cs = cs" by (simp add: preprocess_text_def)
next
  assume a: "space_char U SPACE \<and> length (clean_text U cs) \<le> 800"
  then have p: "preprocess_text U cs = clean_text U cs" by (simp add: preprocess_text_short)
  with a show n: "normalized_text U (preprocess_text U cs)"
    by (simp add: normalized_text_def clean_text_normal)
  then have "clean_text U (clean_text U cs) = clean_text U cs"
    by (simp add: p normalized_text_def clean_text_id)
  with a p show "preprocess_text U (preprocess_text U cs) = preprocess_text U cs"
    by (simp add: preprocess_text_def)
qed

theorem preprocess_text_fixed_point_witness:
  "normalized_text basic_tables [97, 32, 98] \<and>
   preprocess_text basic_tables [97, 32, 98] = [97, 32, 98] \<and>
   space_char basic_tables SPACE \<and>
   length (clean_text basic_tables [32, 32, 97, 44, 32, 98, 32, 32, 10]) \<le> 800 \<and>
   preprocess_text basic_tables (preprocess_text basic_tables [32, 32, 97, 44, 32, 98, 32, 32, 10])
     = preprocess_text basic_tables [32, 32, 97, 44, 32, 98, 32, 32, 10]"
proof -
  have n: "normalized_text basic_tables [97, 32, 98]"
    by (simp add: normalized_text_def no_punctuation_def only_plain_spaces_def trimmed_def
        basic_tables_simps basic_space_def basic_word_def SPACE_def)
  have s: "space_char basic_tables SPACE" by (simp add: basic_tables_simps basic_chars)
  have c: "clean_text basic_tables [32, 32, 97, 44, 32, 98, 32, 32, 10] = [97, 32, 98]"
    by (simp add: clean_text_def remove_punctuation_def strip_def basic_tables_simps
        basic_space_def basic_word_def SPACE_def)
  from preprocess_text_fixed_point [of basic_tables "[97, 32, 98]"]
    preprocess_text_fixed_point [of basic_tables "[32, 32, 97, 44, 32, 98, 32, 32, 10]"] n s c
  show ?thesis by simp
qed

text \<open>
  C9 as stated fails: \<^verbatim>\<open>preprocess_text\<close> is not idempotent on long texts. The input is
  \<^verbatim>\<open>a\<close>, space, U+7684, space and 800 letters \<^verbatim>\<open>b\<close>; its output has two adjacent
  spaces, which a second pass collapses.
\<close>

theorem preprocess_text_idempotent_counterexample:
  "preprocess_text basic_tables
     (preprocess_text basic_tables ([97, 32, 30340, 32] @ replicate 800 98))
   \<noteq> preprocess_text basic_tables ([97, 32, 30340, 32] @ replicate 800 98)"
proof -
  let ?U = basic_tables
  let ?x = "[97, 32, 30340, 32] @ replicate 800 98"
  let ?y = "[97, 32, 32] @ replicate 800 98"
  have sp: "basic_space 32" "\<not> basic_space 97" "\<not> basic_space 98" "\<not> basic_space 30340"
    "basic_word 97" "basic_word 98" "basic_word 30340"
    by (simp_all add: basic_space_def basic_word_def)
  have r: "no_space_run ?U (replicate 800 98)"
    by (rule no_space_word_text) (simp add: basic_tables_simps sp)
  have "clean_text ?U ?x = ?x"
  proof (rule clean_text_id)
    show "no_punctuation ?U ?x"
      by (simp add: no_punctuation_def basic_tables_simps sp list_all_iff)
    show "no_space_run ?U ?x"
      using r by (simp add: no_space_run_Cons basic_tables_simps sp)
    show "only_plain_spaces ?U ?x"
      by (simp add: only_plain_spaces_def basic_tables_simps sp list_all_iff SPACE_def)
    show "trimmed ?U ?x"
      by (simp add: trimmed_def basic_tables_simps sp)
  qed
  then have "preprocess_text ?U ?x = remove_stopwords ?x"
    by (simp add: preprocess_text_def)
  also have "\<dots> = ?y"
    by (simp add: remove_stopwords_def stopwords_def)
  finally have y: "preprocess_text ?U ?x = ?y" .
  have "set ?y \<inter> set stopwords = {}" by (simp add: stopwords_def)
  then have "preprocess_text ?U ?y = clean_text ?U ?y" by (rule preprocess_text_no_stopwords)
  then have "no_space_run ?U (preprocess_text ?U ?y)" by (simp add: clean_text_normal)
  moreover have "\<not> no_space_run ?U ?y" by (simp add: basic_tables_simps sp)
  ultimately show ?thesis unfolding y by metis
qed


section \<open>Verification: term vectors\<close>

lemma counter_add_keys: "map fst (counter_add w m) = (if w \<in> fst ` set m then map fst m else map fst m @ [w])"
  by (induction w m rule: counter_add.induct) auto

lemma counter_add_distinct: "distinct (map fst m) \<Longrightarrow> distinct (map fst (counter_add w m))"
  by (simp add: counter_add_keys)

lemma map_of_counter_add:
  "map_of (counter_add w m) k =
     (if k = w then Some (case map_of m w of None \<Rightarrow> 1 | Some c \<Rightarrow> c + 1) else map_of m k)"
  by (induction w m rule: counter_add.induct) auto

lemma fold_counter_add:
  "distinct (map fst m) \<Longrightarrow>
   distinct (map fst (fold counter_add ws m)) \<and>
   map_of (fold counter_add ws m) k =
     (case map_of m k of
        None \<Rightarrow> if k \<in> set ws then Some (int (count_list ws k)) else None
      | Some c \<Rightarrow> Some (c + int (count_list ws k)))"
proof (induction ws arbitrary: m)
  case Nil
  then show ?case by (simp split: option.splits)
next
  case (Cons w ws)
  from Cons.prems have d: "distinct (map fst (counter_add w m))" by (rule counter_add_distinct)
  show ?case
    using Cons.IH [OF d] by (auto simp: map_of_counter_add split: option.splits)
qed

lemma term_frequency_distinct: "distinct (map fst (calculate_term_frequency ws))"
  using fold_counter_add [of "[]" ws] by (simp add: calculate_term_frequency_def)

lemma term_frequency_count:
  "map_of (calculate_term_frequency ws) k =
     (if k \<in> set ws then Some (int (count_list ws k)) else None)"
  using fold_counter_add [of "[]" ws k] by (simp add: calculate_term_frequency_def)

lemma list_index_member:
  "w \<in> set vs \<Longrightarrow> \<exists>i. list_index vs w = Inr i \<and> i < length vs \<and> vs ! i = w"
  by (induction vs) auto

lemma fill_vector_total:
  "length vector = length vocabulary \<Longrightarrow>
   \<exists>v. fill_vector items vocabulary vector = Inr v \<and> length v = length vocabulary"
proof (induction items vocabulary vector rule: fill_vector.induct)
  case (1 vocabulary vector)
  then show ?case by simp
next
  case (2 word count items vocabulary vector)
  show ?case
  proof (cases "word \<in> set vocabulary")
    case True
    then obtain i where i: "list_index vocabulary word = Inr i" "i < length vocabulary"
      using list_index_member by fastforce
    with 2 True show ?thesis by (simp add: list_store_def)
  next
    case False
    with 2 show ?thesis by simp
  qed
qed

lemma fill_vector_entries:
  "length vector = length vocabulary \<Longrightarrow> distinct vocabulary \<Longrightarrow> distinct (map fst items) \<Longrightarrow>
   fill_vector items vocabulary vector = Inr v \<Longrightarrow> i < length vocabulary \<Longrightarrow>
   v ! i = (case map_of items (vocabulary ! i) of None \<Rightarrow> vector ! i | Some c \<Rightarrow> c)"
proof (induction items vocabulary vector rule: fill_vector.induct)
  case (1 vocabulary vector)
  then show ?case by simp
next
  case (2 word count items vocabulary vector)
  from "2.prems" have fresh: "map_of items word = None"
    by (simp add: map_of_eq_None_iff)
  show ?case
  proof (cases "word \<in> set vocabulary")
    case True
    then obtain j where j: "list_index vocabulary word = Inr j" "j < length vocabulary"
      "vocabulary ! j = word"
      using list_index_member by fastforce
    let ?vec = "vector[j := count]"
    from j "2.prems" have st: "list_store vector j count = Inr ?vec"
      by (simp add: list_store_def)
    from "2.prems" True j st have r: "fill_vector items vocabulary ?vec = Inr v" by simp
    have "v ! i = (case map_of items (vocabulary ! i) of None \<Rightarrow> ?vec ! i | Some c \<Rightarrow> c)"
      using "2.IH"(1) [OF True j(1) st _ _ _ r] "2.prems" by simp
    moreover have "vocabulary ! i = word \<longleftrightarrow> i = j"
      using "2.prems" j by (auto simp: nth_eq_iff_index_eq)
    ultimately show ?thesis using fresh "2.prems" j by (auto split: option.splits)
  next
    case False
    with "2.prems" have r: "fill_vector items vocabulary vector = Inr v" by simp
    have "v ! i = (case map_of items (vocabulary ! i) of None \<Rightarrow> vector ! i | Some c \<Rightarrow> c)"
      using "2.IH"(2) [OF False _ _ _ r] "2.prems" by simp
    moreover have "vocabulary ! i \<noteq> word" using False "2.prems" by auto
    ultimately show ?thesis by simp
  qed
qed

text \<open>
  C6. \<^verbatim>\<open>text_to_vector\<close> never fails, whatever the token sequence and the vocabulary:
  tokens that are not in the vocabulary are skipped. It returns a vector as long as the
  vocabulary; when the vocabulary has no duplicates, the entry at each index is the
  number of occurrences in the sequence of the vocabulary token at that index.
\<close>

theorem text_to_vector_counts:
  "\<exists>vector. text_to_vector words vocabulary = Inr vector \<and>
     length vector = length vocabulary \<and>
     (distinct vocabulary \<longrightarrow>
        (\<forall>i<length vocabulary. vector ! i = int (count_list words (vocabulary ! i))))"
proof -
  let ?items = "calculate_term_frequency words"
  let ?zero = "replicate (length vocabulary) (0::int)"
  obtain v where v: "fill_vector ?items vocabulary ?zero = Inr v" "length v = length vocabulary"
    using fill_vector_total [of ?zero vocabulary ?items] by auto
  have "v ! i = int (count_list words (vocabulary ! i))"
    if "distinct vocabulary" "i < length vocabulary" for i
    using fill_vector_entries [OF _ that(1) term_frequency_distinct v(1) that(2)] that(2)
    by (simp add: term_frequency_count count_list_0_iff)
  with v show ?thesis by (auto simp: text_to_vector_def)
qed

theorem text_to_vector_counts_witness:
  "distinct [[27979, 35797], [25991, 26412], [21333, 20803::nat]] \<and>
   text_to_vector [[27979, 35797], [25991, 26412], [27979, 35797], [19981::nat]]
     [[27979, 35797], [25991, 26412], [21333, 20803]] = Inr [2, 1, 0]"
proof -
  let ?w = "[[27979, 35797], [25991, 26412], [27979, 35797], [19981::nat]]"
  let ?v = "[[27979, 35797], [25991, 26412], [21333, 20803::nat]]"
  have d: "distinct ?v" by simp
  from text_to_vector_counts [of ?w ?v] d
  obtain vec where vec: "text_to_vector ?w ?v = Inr vec" "length vec = 3"
    "\<forall>i<3. vec ! i = int (count_list ?w (?v ! i))"
    by auto
  from vec(2) obtain a b c where abc: "vec = [a, b, c]"
    by (auto simp: numeral_3_eq_3 length_Suc_conv)
  from vec(3) have "vec ! 0 = 2" "vec ! 1 = 1" "vec ! 2 = 0"
    by (simp_all add: nth_Cons')
  with abc have "vec = [2, 1, 0]" by simp
  with vec(1) d show ?thesis by simp
qed


section \<open>Verification: segmentation\<close>

lemma dropWhile_all_Nil:
  "(\<forall>x\<in>set (dropWhile P xs). P x) \<longleftrightarrow> dropWhile P xs = []"
proof
  assume a: "\<forall>x\<in>set (dropWhile P xs). P x"
  show "dropWhile P xs = []"
  proof (rule ccontr)
    assume n: "dropWhile P xs \<noteq> []"
    then have "\<not> P (hd (dropWhile P xs))" by (rule hd_dropWhile)
    moreover from n have "hd (dropWhile P xs) \<in> set (dropWhile P xs)" by simp
    ultimately show False using a by blast
  qed
qed (auto dest: set_dropWhileD)

lemma strip_Nil_iff: "strip U word = [] \<longleftrightarrow> list_all (space_char U) word"
proof -
  have "strip U word = [] \<longleftrightarrow> (\<forall>x\<in>set (dropWhile (space_char U) word). space_char U x)"
    by (simp add: strip_def)
  also have "\<dots> \<longleftrightarrow> dropWhile (space_char U) word = []" by (rule dropWhile_all_Nil)
  also have "\<dots> \<longleftrightarrow> list_all (space_char U) word"
    by (simp add: list_all_iff)
  finally show ?thesis .
qed

lemma segment_text_set:
  "set (segment_text U lcut cs) = {word \<in> set (lcut cs). \<not> list_all (space_char U) word}"
  by (auto simp: segment_text_def strip_Nil_iff)

text \<open>
  What the filter of \<^verbatim>\<open>segment_text\<close> ensures, for any segmenter: the tokens are words
  of the segmenter, in its order, and each has a character that is not whitespace. Which
  words the segmenter returns for a text, and whether one of them can hold whitespace
  next to other characters, is decided by the segmentation library and its dictionary.
\<close>

lemma segment_text_filter:
  "segment_text U lcut cs = filter (\<lambda>word. \<not> list_all (space_char U) word) (lcut cs)"
  by (simp add: segment_text_def strip_Nil_iff)

lemma segment_text_not_blank:
  "token \<in> set (segment_text U lcut cs) \<Longrightarrow> token \<noteq> [] \<and> list_ex (\<lambda>c. \<not> space_char U c) token"
  by (auto simp: segment_text_set list_all_iff list_ex_iff)

section \<open>Verification: floating-point rounding\<close>

subsection \<open>Exponents and rounding to an integer\<close>

lemma two_powi_pos [simp]: "0 < (2::rat) powi e"
  by simp

lemma two_powi_mono: "a \<le> b \<Longrightarrow> (2::rat) powi a \<le> 2 powi b"
  by (rule power_int_increasing) simp_all

lemma two_powi_strict_mono: "a < b \<Longrightarrow> (2::rat) powi a < 2 powi b"
  by (rule power_int_strict_increasing) simp_all

lemma two_powi_less_iff: "(2::rat) powi a < 2 powi b \<longleftrightarrow> a < b"
  using two_powi_mono [of b a] two_powi_strict_mono [of a b] by (auto simp: not_le [symmetric])

lemma two_powi_Suc: "(2::rat) powi (e + 1) = 2 * 2 powi e"
  by (simp add: power_int_add)

lemma ilog2_bounds:
  assumes "x \<noteq> 0"
  shows "2 powi (ilog2 x) \<le> \<bar>x\<bar>" and "\<bar>x\<bar> < 2 powi (ilog2 x + 1)"
proof -
  obtain p q where pq: "quotient_of \<bar>x\<bar> = (p, q)" by (cases "quotient_of \<bar>x\<bar>")
  then have q: "0 < q" and x: "\<bar>x\<bar> = of_int p / of_int q"
    by (simp_all add: quotient_of_denom_pos quotient_of_div)
  from assms have "0 < \<bar>x\<bar>" by simp
  with x q have p: "0 < p" by (simp add: zero_less_divide_iff)
  define bp bq where "bp = bitlen p" and "bq = bitlen q"
  define k where "k = bp - bq"
  from p q have b1: "1 \<le> bp" "1 \<le> bq"
    by (simp_all add: bp_def bq_def bitlen_alt_def)
  from bitlen_bounds [OF p] have pb: "(2::rat) ^ nat (bp - 1) \<le> of_int p" "of_int p < (2::rat) ^ nat bp"
    unfolding bp_def by (metis of_int_le_iff of_int_numeral of_int_power, metis of_int_less_iff of_int_numeral of_int_power)
  from bitlen_bounds [OF q] have qb: "(2::rat) ^ nat (bq - 1) \<le> of_int q" "of_int q < (2::rat) ^ nat bq"
    unfolding bq_def by (metis of_int_le_iff of_int_numeral of_int_power, metis of_int_less_iff of_int_numeral of_int_power)
  have e1: "(2::rat) powi (k + 1) = 2 ^ nat bp / 2 ^ nat (bq - 1)"
  proof -
    have "(2::rat) powi (k + 1) = 2 powi (bp - (bq - 1))" by (simp add: k_def algebra_simps)
    also have "\<dots> = 2 powi bp / 2 powi (bq - 1)" by (rule power_int_diff) simp
    also have "\<dots> = 2 ^ nat bp / 2 ^ nat (bq - 1)"
      using b1 by (simp add: power_int_nonneg_exp)
    finally show ?thesis .
  qed
  have e2: "(2::rat) powi (k - 1) = 2 ^ nat (bp - 1) / 2 ^ nat bq"
  proof -
    have "(2::rat) powi (k - 1) = 2 powi ((bp - 1) - bq)" by (simp add: k_def algebra_simps)
    also have "\<dots> = 2 powi (bp - 1) / 2 powi bq" by (rule power_int_diff) simp
    also have "\<dots> = 2 ^ nat (bp - 1) / 2 ^ nat bq"
      using b1 by (simp add: power_int_nonneg_exp)
    finally show ?thesis .
  qed
  have up: "\<bar>x\<bar> < 2 powi (k + 1)"
    unfolding e1 x using pb qb q p
    by (intro frac_less) simp_all
  have lo: "2 powi (k - 1) < \<bar>x\<bar>"
    unfolding e2 x using pb qb q p
    by (intro frac_less2) simp_all
  have il: "ilog2 x = (if 2 powi k \<le> \<bar>x\<bar> then k else k - 1)"
    by (simp add: ilog2_def pq k_def bp_def bq_def)
  show "2 powi (ilog2 x) \<le> \<bar>x\<bar>" using lo by (simp add: il)
  show "\<bar>x\<bar> < 2 powi (ilog2 x + 1)" using up by (simp add: il not_le)
qed

lemma ilog2_unique:
  assumes "2 powi e \<le> \<bar>x\<bar>" "\<bar>x\<bar> < 2 powi (e + 1)"
  shows "ilog2 x = e"
proof -
  have nz: "x \<noteq> 0"
  proof
    assume "x = 0"
    with assms(1) have "(2::rat) powi e \<le> 0" by simp
    with two_powi_pos [of e] show False by linarith
  qed
  note b = ilog2_bounds [OF nz]
  from assms(1) b(2) have "(2::rat) powi e < 2 powi (ilog2 x + 1)" by (rule le_less_trans)
  then have 1: "e < ilog2 x + 1" by (simp add: two_powi_less_iff)
  from b(1) assms(2) have "(2::rat) powi (ilog2 x) < 2 powi (e + 1)" by (rule le_less_trans)
  then have 2: "ilog2 x < e + 1" by (simp add: two_powi_less_iff)
  from 1 2 show ?thesis by simp
qed

lemma ilog2_minus [simp]: "ilog2 (- x) = ilog2 x"
  by (simp add: ilog2_def)

lemma round_half_even_of_int [simp]: "round_half_even (of_int k) = k"
  by (simp add: round_half_even_def)

lemma round_half_even_error: "\<bar>of_int (round_half_even x) - x\<bar> \<le> 1 / 2"
proof -
  have "of_int \<lfloor>x\<rfloor> \<le> x" "x < of_int \<lfloor>x\<rfloor> + 1" by linarith+
  then show ?thesis
    by (auto simp: round_half_even_def Let_def abs_le_iff)
qed

lemma round_half_even_floor: "\<lfloor>x\<rfloor> \<le> round_half_even x" "round_half_even x \<le> \<lfloor>x\<rfloor> + 1"
  by (simp_all add: round_half_even_def Let_def)

lemma round_half_even_mono: "x \<le> y \<Longrightarrow> round_half_even x \<le> round_half_even y"
proof -
  assume xy: "x \<le> y"
  then have f: "\<lfloor>x\<rfloor> \<le> \<lfloor>y\<rfloor>" by (rule floor_mono)
  show ?thesis
  proof (cases "\<lfloor>x\<rfloor> = \<lfloor>y\<rfloor>")
    case True
    with xy show ?thesis
      by (auto simp: round_half_even_def Let_def)
  next
    case False
    with f have "\<lfloor>x\<rfloor> + 1 \<le> \<lfloor>y\<rfloor>" by simp
    with round_half_even_floor(2) [of x] round_half_even_floor(1) [of y] show ?thesis
      by linarith
  qed
qed

lemma round_half_even_minus: "round_half_even (- x) = - round_half_even x"
proof (cases "x = of_int \<lfloor>x\<rfloor>")
  case True
  then obtain k where "x = of_int k" ..
  then have "- x = of_int (- k)" by simp
  then show ?thesis unfolding \<open>x = of_int k\<close> by (metis round_half_even_of_int)
next
  case False
  then have fl: "\<lfloor>- x\<rfloor> = - \<lfloor>x\<rfloor> - 1"
    by (simp add: floor_minus ceiling_altdef)
  have "of_int \<lfloor>x\<rfloor> \<le> x" by simp
  with False have "of_int \<lfloor>x\<rfloor> < x" by (auto simp: less_le)
  then show ?thesis
    by (auto simp: round_half_even_def Let_def fl)
qed

subsection \<open>Rounding to a float\<close>

lemma fl_zero [simp]: "fl 0 = 0"
  by (simp add: fl_def)

lemma fl_minus: "fl (- x) = - fl x"
  by (simp add: fl_def Let_def round_half_even_minus)

lemma two_powi_52: "(2::rat) powi e / 2 powi (e - 52) = 2 ^ 52"
proof -
  have "(2::rat) powi (e - 52 + 52) = 2 powi (e - 52) * 2 powi 52"
    by (rule power_int_add) simp
  then show ?thesis by simp
qed

lemma two_powi_53: "(2::rat) powi (e + 1) / 2 powi (e - 52) = 2 ^ 53"
proof -
  have "(2::rat) powi (e - 52 + 53) = 2 powi (e - 52) * 2 powi 53"
    by (rule power_int_add) simp
  moreover have "e - 52 + 53 = e + 1" by simp
  ultimately have "(2::rat) powi (e + 1) = 2 powi (e - 52) * 2 powi 53" by simp
  then show ?thesis by (simp del: power_int_add_1 add: add.commute)
qed

lemma scaled_bounds:
  assumes "0 < x"
  shows "2 ^ 52 \<le> x / 2 powi (ilog2 x - 52)" and "x / 2 powi (ilog2 x - 52) < 2 ^ 53"
proof -
  from assms have nz: "x \<noteq> 0" by simp
  from ilog2_bounds [OF nz] assms
  have b: "2 powi (ilog2 x) \<le> x" "x < 2 powi (ilog2 x + 1)" by simp_all
  have "2 powi (ilog2 x) / 2 powi (ilog2 x - 52) \<le> x / 2 powi (ilog2 x - 52)"
    using b(1) by (simp add: divide_right_mono)
  then show "2 ^ 52 \<le> x / 2 powi (ilog2 x - 52)" by (simp only: two_powi_52)
  have "x / 2 powi (ilog2 x - 52) < 2 powi (ilog2 x + 1) / 2 powi (ilog2 x - 52)"
    using b(2) by (simp add: divide_strict_right_mono)
  then show "x / 2 powi (ilog2 x - 52) < 2 ^ 53" by (simp only: two_powi_53)
qed

lemma mantissa_bounds:
  assumes "0 < x"
  shows "2 ^ 52 \<le> round_half_even (x / 2 powi (ilog2 x - 52))"
    and "round_half_even (x / 2 powi (ilog2 x - 52)) \<le> 2 ^ 53"
proof -
  let ?y = "x / 2 powi (ilog2 x - 52)"
  have "round_half_even (of_int (2 ^ 52)) \<le> round_half_even ?y"
    using scaled_bounds(1) [OF assms] by (intro round_half_even_mono) simp
  then show "2 ^ 52 \<le> round_half_even ?y" by (simp only: round_half_even_of_int)
  have "round_half_even ?y \<le> round_half_even (of_int (2 ^ 53))"
    using scaled_bounds(2) [OF assms] by (intro round_half_even_mono) simp
  then show "round_half_even ?y \<le> 2 ^ 53" by (simp only: round_half_even_of_int)
qed

lemma fl_pos_eq:
  "0 < x \<Longrightarrow> fl x = of_int (round_half_even (x / 2 powi (ilog2 x - 52))) * 2 powi (ilog2 x - 52)"
  by (simp add: fl_def Let_def)

lemma fl_binade:
  assumes "0 < x"
  shows "2 powi (ilog2 x) \<le> fl x" and "fl x \<le> 2 powi (ilog2 x + 1)"
proof -
  let ?u = "(2::rat) powi (ilog2 x - 52)"
  let ?n = "round_half_even (x / ?u)"
  have u: "0 < ?u" by simp
  have e52: "2 ^ 52 * ?u = 2 powi (ilog2 x)"
    using two_powi_52 [of "ilog2 x"] by (simp add: field_simps)
  have e53: "2 ^ 53 * ?u = 2 powi (ilog2 x + 1)"
    using two_powi_53 [of "ilog2 x"] by (simp add: field_simps)
  from mantissa_bounds [OF assms] have "(2::rat) ^ 52 \<le> of_int ?n" "of_int ?n \<le> (2::rat) ^ 53"
    by (metis of_int_le_iff of_int_numeral of_int_power)+
  then have "2 ^ 52 * ?u \<le> of_int ?n * ?u" "of_int ?n * ?u \<le> 2 ^ 53 * ?u"
    using u by (simp_all add: mult_right_mono)
  then show "2 powi (ilog2 x) \<le> fl x" "fl x \<le> 2 powi (ilog2 x + 1)"
    by (simp_all only: fl_pos_eq [OF assms] e52 e53)
qed

lemma fl_pos: "0 < x \<Longrightarrow> 0 < fl x"
  using fl_binade(1) [of x] two_powi_pos [of "ilog2 x"] by linarith

lemma fl_neg: "x < 0 \<Longrightarrow> fl x < 0"
  using fl_pos [of "- x"] by (simp add: fl_minus)

lemma fl_eq_0_iff [simp]: "fl x = 0 \<longleftrightarrow> x = 0"
  using fl_pos [of x] fl_neg [of x] by (cases "x = 0") (auto simp: neq_iff)

lemma fl_nonneg: "0 \<le> x \<Longrightarrow> 0 \<le> fl x"
  using fl_pos [of x] by (cases "x = 0") (auto simp: less_le)

lemma fl_error_pos:
  assumes "0 < x"
  shows "\<bar>fl x - x\<bar> \<le> 2 powi (ilog2 x - 52) / 2"
proof -
  let ?u = "(2::rat) powi (ilog2 x - 52)"
  let ?n = "round_half_even (x / ?u)"
  have u: "0 < ?u" by simp
  have "fl x - x = (of_int ?n - x / ?u) * ?u"
    by (simp add: fl_pos_eq [OF assms] field_simps)
  then have "\<bar>fl x - x\<bar> = \<bar>of_int ?n - x / ?u\<bar> * ?u"
    by (simp add: abs_mult)
  also have "\<dots> \<le> (1 / 2) * ?u"
    using round_half_even_error [of "x / ?u"] u by (intro mult_right_mono) simp_all
  finally show ?thesis by simp
qed

lemma fl_rel_error_pos:
  assumes "0 < x"
  shows "\<bar>fl x - x\<bar> \<le> x / 2 ^ 53"
proof -
  from assms have nz: "x \<noteq> 0" by simp
  have "(2::rat) powi (ilog2 x - 52) / 2 = 2 powi (ilog2 x) / 2 ^ 53"
    using two_powi_52 [of "ilog2 x"] by (simp add: field_simps)
  also have "\<dots> \<le> x / 2 ^ 53"
    using ilog2_bounds(1) [OF nz] assms by (simp add: divide_right_mono)
  finally show ?thesis using fl_error_pos [OF assms] by linarith
qed

lemma fl_rel_error: "\<bar>fl x - x\<bar> \<le> \<bar>x\<bar> / 2 ^ 53"
proof (cases x "0::rat" rule: linorder_cases)
  case less
  then show ?thesis using fl_rel_error_pos [of "- x"] by (simp add: fl_minus)
next
  case equal
  then show ?thesis by simp
next
  case greater
  then show ?thesis using fl_rel_error_pos [of x] by simp
qed

lemma ilog2_mono:
  assumes "0 < x" "x \<le> y"
  shows "ilog2 x \<le> ilog2 y"
proof -
  from assms have nz: "x \<noteq> 0" "y \<noteq> 0" by simp_all
  from ilog2_bounds(1) [OF nz(1)] ilog2_bounds(2) [OF nz(2)] assms
  have "(2::rat) powi (ilog2 x) < 2 powi (ilog2 y + 1)" by simp
  then show ?thesis by (simp add: two_powi_less_iff)
qed

lemma fl_mono_pos:
  assumes "0 < x" "x \<le> y"
  shows "fl x \<le> fl y"
proof -
  from assms have y: "0 < y" by simp
  show ?thesis
  proof (cases "ilog2 x = ilog2 y")
    case True
    let ?u = "(2::rat) powi (ilog2 y - 52)"
    have "x / ?u \<le> y / ?u" using assms by (simp add: divide_right_mono)
    then have "round_half_even (x / ?u) \<le> round_half_even (y / ?u)"
      by (rule round_half_even_mono)
    then have "of_int (round_half_even (x / ?u)) * ?u \<le> of_int (round_half_even (y / ?u)) * ?u"
      by (simp add: mult_right_mono)
    then show ?thesis by (simp only: fl_pos_eq [OF assms(1)] fl_pos_eq [OF y] True)
  next
    case False
    with ilog2_mono [OF assms] have "ilog2 x + 1 \<le> ilog2 y" by simp
    then have "(2::rat) powi (ilog2 x + 1) \<le> 2 powi (ilog2 y)" by (rule two_powi_mono)
    with fl_binade(2) [OF assms(1)] fl_binade(1) [OF y] show ?thesis by linarith
  qed
qed

lemma fl_mono: "x \<le> y \<Longrightarrow> fl x \<le> fl y"
proof -
  assume xy: "x \<le> y"
  consider "0 < x" | "x \<le> 0" "0 \<le> y" | "y < 0" by linarith
  then show ?thesis
  proof cases
    case 1
    then show ?thesis using xy by (rule fl_mono_pos)
  next
    case 2
    have "fl x \<le> 0" using fl_nonneg [of "- x"] 2(1) by (simp add: fl_minus)
    with fl_nonneg [OF 2(2)] show ?thesis by linarith
  next
    case 3
    with xy have "fl (- y) \<le> fl (- x)" by (intro fl_mono_pos) simp_all
    then show ?thesis by (simp add: fl_minus)
  qed
qed

lemma fl_exact_pos:
  assumes "0 < m" "m < 2 ^ 53"
  shows "fl (of_int m * 2 powi k) = of_int m * 2 powi k"
proof -
  let ?x = "of_int m * (2::rat) powi k"
  let ?e = "ilog2 ?x"
  have x: "0 < ?x" using assms by simp
  then have nz: "?x \<noteq> 0" by linarith
  have "of_int m < (2::rat) ^ 53" using assms(2) by (metis of_int_less_iff of_int_numeral of_int_power)
  then have "?x < 2 ^ 53 * 2 powi k" by (simp add: mult_strict_right_mono)
  also have "\<dots> = 2 powi (53 + k)" by (simp add: power_int_add)
  finally have "?x < 2 powi (53 + k)" .
  with ilog2_bounds(1) [OF nz] x have "(2::rat) powi ?e < 2 powi (53 + k)" by simp
  then have j: "0 \<le> k - (?e - 52)" by (simp add: two_powi_less_iff)
  have "?x / 2 powi (?e - 52) = of_int m * (2 powi k / 2 powi (?e - 52))" by simp
  also have "2 powi k / (2::rat) powi (?e - 52) = 2 powi (k - (?e - 52))"
    by (rule power_int_diff [symmetric]) simp
  also have "\<dots> = 2 ^ nat (k - (?e - 52))" using j by (rule power_int_nonneg_exp)
  finally have s: "?x / 2 powi (?e - 52) = of_int (m * 2 ^ nat (k - (?e - 52)))" by simp
  have "fl ?x = of_int (round_half_even (?x / 2 powi (?e - 52))) * 2 powi (?e - 52)"
    using x by (rule fl_pos_eq)
  also have "\<dots> = ?x / 2 powi (?e - 52) * 2 powi (?e - 52)"
    by (simp only: s round_half_even_of_int)
  also have "\<dots> = ?x" by simp
  finally show ?thesis .
qed

lemma fl_exact:
  assumes "\<bar>m\<bar> < 2 ^ 53"
  shows "fl (of_int m * 2 powi k) = of_int m * 2 powi k"
proof (cases m "0::int" rule: linorder_cases)
  case less
  with assms have "fl (of_int (- m) * 2 powi k) = of_int (- m) * 2 powi k"
    by (intro fl_exact_pos) simp_all
  then show ?thesis by (simp add: fl_minus)
next
  case equal
  then show ?thesis by simp
next
  case greater
  with assms show ?thesis by (intro fl_exact_pos) simp_all
qed

lemma fl_two_powi [simp]: "fl (2 powi k) = 2 powi k"
  using fl_exact [of 1 k] by simp

lemma fl_of_int:
  assumes "\<bar>i\<bar> \<le> 2 ^ 53"
  shows "fl (of_int i) = of_int i"
proof (cases "\<bar>i\<bar> = 2 ^ 53")
  case True
  then have "i = 2 ^ 53 \<or> i = - (2 ^ 53)" by linarith
  moreover have "fl (2 ^ 53) = 2 ^ 53" using fl_two_powi [of 53] by simp
  ultimately show ?thesis by (auto simp: fl_minus)
next
  case False
  with assms have "\<bar>i\<bar> < 2 ^ 53" by simp
  from fl_exact [OF this, of 0] show ?thesis by simp
qed

lemma fl_one [simp]: "fl 1 = 1"
  using fl_two_powi [of 0] by simp

lemma fl_le_representable: "x \<le> of_int i \<Longrightarrow> \<bar>i\<bar> \<le> 2 ^ 53 \<Longrightarrow> fl x \<le> of_int i"
  using fl_mono [of x "of_int i"] by (simp add: fl_of_int)

lemma fl_ge_representable: "of_int i \<le> x \<Longrightarrow> \<bar>i\<bar> \<le> 2 ^ 53 \<Longrightarrow> of_int i \<le> fl x"
  using fl_mono [of "of_int i" x] by (simp add: fl_of_int)

lemma fl_unit_interval: "0 \<le> x \<Longrightarrow> x \<le> 1 \<Longrightarrow> 0 \<le> fl x \<and> fl x \<le> 1"
  using fl_mono [of x 1] fl_nonneg [of x] by simp

section \<open>Verification: edit-distance similarity\<close>

lemma levenshtein_Nil2 [simp]: "levenshtein_distance xs [] = length xs"
  by (cases xs) simp_all

lemma levenshtein_refl [simp]: "levenshtein_distance xs xs = 0"
  by (induction xs) simp_all

lemma levenshtein_le_max:
  "levenshtein_distance xs ys \<le> max (length xs) (length ys)"
proof (induction xs ys rule: levenshtein_distance.induct)
  case (3 x xs y ys)
  have "levenshtein_distance (x # xs) (y # ys) \<le> levenshtein_distance xs ys + (if x = y then 0 else 1)"
    by simp
  also have "\<dots> \<le> levenshtein_distance xs ys + 1" by simp
  also have "\<dots> \<le> max (length xs) (length ys) + 1" using 3 by simp
  finally show ?case by simp
qed simp_all

lemma levenshtein_sym: "levenshtein_distance xs ys = levenshtein_distance ys xs"
proof (induction xs ys rule: levenshtein_distance.induct)
  case (3 x xs y ys)
  then show ?case by (simp add: min.commute eq_commute [of x y])
qed simp_all

lemma edit_similarity_eq:
  assumes "a \<noteq> [] \<or> b \<noteq> []"
  shows "calculate_edit_distance_similarity a b =
    Inr (fl (1 - fl (of_nat (levenshtein_distance a b) / of_nat (max (length a) (length b)))))"
  using assms
  by (auto simp: calculate_edit_distance_similarity_def int_truediv_def fsub_def Let_def)

text \<open>
  C4. \<^verbatim>\<open>calculate_edit_distance_similarity\<close> returns 1.0 for two empty strings. Otherwise
  it returns \<^verbatim>\<open>1 - edit_distance / max_length\<close> as the floats compute it (the quotient
  rounded, then the difference rounded), within \<open>1 / 2 ^ 52\<close> of the exact value. The
  result always lies between 0 and 1, the edit distance being at most the longer length.
  A string has similarity 1.0 with itself, and the empty string has similarity 0.0 with
  every non-empty string.
\<close>

theorem edit_similarity_range:
  "calculate_edit_distance_similarity [] [] = Inr 1 \<and>
   levenshtein_distance a b \<le> max (length a) (length b) \<and>
   (\<exists>r. calculate_edit_distance_similarity a b = Inr r \<and> 0 \<le> r \<and> r \<le> 1 \<and>
      (a \<noteq> [] \<or> b \<noteq> [] \<longrightarrow>
         r = fsub 1 (fl (of_nat (levenshtein_distance a b) / of_nat (max (length a) (length b)))) \<and>
         \<bar>r - (1 - of_nat (levenshtein_distance a b) / of_nat (max (length a) (length b)))\<bar>
           \<le> 1 / 2 ^ 52)) \<and>
   calculate_edit_distance_similarity a a = Inr 1 \<and>
   (b \<noteq> [] \<longrightarrow> calculate_edit_distance_similarity [] b = Inr 0)"
proof (intro conjI)
  show "calculate_edit_distance_similarity [] [] = Inr 1"
    by (simp add: calculate_edit_distance_similarity_def)
  show "levenshtein_distance a b \<le> max (length a) (length b)"
    by (rule levenshtein_le_max)
  show "calculate_edit_distance_similarity a a = Inr 1"
  proof (cases "a = []")
    case True
    then show ?thesis by (simp add: calculate_edit_distance_similarity_def)
  next
    case False
    then show ?thesis by (simp add: edit_similarity_eq)
  qed
  show "b \<noteq> [] \<longrightarrow> calculate_edit_distance_similarity [] b = Inr 0"
    by (simp add: edit_similarity_eq)
  show "\<exists>r. calculate_edit_distance_similarity a b = Inr r \<and> 0 \<le> r \<and> r \<le> 1 \<and>
      (a \<noteq> [] \<or> b \<noteq> [] \<longrightarrow>
         r = fsub 1 (fl (of_nat (levenshtein_distance a b) / of_nat (max (length a) (length b)))) \<and>
         \<bar>r - (1 - of_nat (levenshtein_distance a b) / of_nat (max (length a) (length b)))\<bar>
           \<le> 1 / 2 ^ 52)"
  proof (cases "a \<noteq> [] \<or> b \<noteq> []")
    case False
    then show ?thesis by (simp add: calculate_edit_distance_similarity_def)
  next
    case True
    define d :: rat where "d = of_nat (levenshtein_distance a b)"
    define n :: rat where "n = of_nat (max (length a) (length b))"
    define q where "q = fl (d / n)"
    define r where "r = fl (1 - q)"
    from True have "0 < max (length a) (length b)" by (auto simp: less_max_iff_disj)
    then have n: "0 < n" by (simp add: n_def del: of_nat_max)
    have d: "0 \<le> d" "d \<le> n"
      using levenshtein_le_max [of a b] by (simp_all add: d_def n_def del: of_nat_max)
    then have t: "0 \<le> d / n" "d / n \<le> 1" using n by simp_all
    then have q: "0 \<le> q" "q \<le> 1" using fl_unit_interval [of "d / n"] by (simp_all add: q_def)
    then have r: "0 \<le> r" "r \<le> 1" using fl_unit_interval [of "1 - q"] by (simp_all add: r_def)
    have "\<bar>q - d / n\<bar> \<le> \<bar>d / n\<bar> / 2 ^ 53" unfolding q_def by (rule fl_rel_error)
    also have "\<dots> \<le> 1 / 2 ^ 53" using t by (simp add: divide_right_mono)
    finally have e1: "\<bar>q - d / n\<bar> \<le> 1 / 2 ^ 53" .
    have "\<bar>r - (1 - q)\<bar> \<le> \<bar>1 - q\<bar> / 2 ^ 53" unfolding r_def by (rule fl_rel_error)
    also have "\<dots> \<le> 1 / 2 ^ 53" using q by (simp add: divide_right_mono)
    finally have e2: "\<bar>r - (1 - q)\<bar> \<le> 1 / 2 ^ 53" .
    define eps :: rat where "eps = 1 / 2 ^ 53"
    have "1 / 2 ^ 52 = 2 * eps" by (simp add: eps_def)
    moreover from e1 e2 have "\<bar>q - d / n\<bar> \<le> eps" "\<bar>r - (1 - q)\<bar> \<le> eps"
      by (simp_all only: eps_def)
    ultimately have e: "\<bar>r - (1 - d / n)\<bar> \<le> 1 / 2 ^ 52" by linarith
    have "calculate_edit_distance_similarity a b = Inr r"
      using True by (simp add: edit_similarity_eq r_def q_def d_def n_def del: of_nat_max)
    with r e show ?thesis
      by (simp add: fsub_def r_def q_def d_def n_def del: of_nat_max)
  qed
qed

theorem edit_similarity_range_witness:
  "[27979, 35797, 25991, 26723] \<noteq> ([]::ustring) \<and>
   calculate_edit_distance_similarity [27979, 35797, 25991, 26412] [27979, 35797, 25991, 26723]
     = Inr (3 / 4) \<and>
   calculate_edit_distance_similarity [] [27979, 35797] = Inr 0"
proof -
  have l: "levenshtein_distance [27979, 35797, 25991, 26412] [27979, 35797, 25991, 26723::nat] = 1"
    by simp
  have f: "fl (1 / 4) = 1 / 4" "fl (3 / 4) = 3 / 4"
    using fl_exact [of 1 "- 2"] fl_exact [of 3 "- 2"] by simp_all
  from edit_similarity_range [of "[27979, 35797, 25991, 26412]" "[27979, 35797, 25991, 26723]"]
  obtain r where r: "calculate_edit_distance_similarity [27979, 35797, 25991, 26412]
      [27979, 35797, 25991, 26723] = Inr r"
    "r = fsub 1 (fl (of_nat (levenshtein_distance [27979, 35797, 25991, 26412]
      [27979, 35797, 25991, 26723::nat]) / of_nat (max (length [27979, 35797, 25991, 26412::nat])
      (length [27979, 35797, 25991, 26723::nat]))))"
    by blast
  from r(2) have "r = 3 / 4" unfolding l by (simp add: fsub_def f)
  with r(1) edit_similarity_range [of "[]" "[27979, 35797]"] show ?thesis
    by (simp add: fsub_def)
qed

section \<open>Verification: cosine similarity\<close>

subsection \<open>The sample power function\<close>

lemma sqrt_bits_correct:
  "0 \<le> r \<Longrightarrow> r * r \<le> n \<Longrightarrow> n < (r + 2 ^ k) * (r + 2 ^ k) \<Longrightarrow>
   0 \<le> sqrt_bits k r n \<and> sqrt_bits k r n * sqrt_bits k r n \<le> n \<and>
   n < (sqrt_bits k r n + 1) * (sqrt_bits k r n + 1)"
proof (induction k arbitrary: r)
  case 0
  then show ?case by simp
next
  case (Suc k)
  show ?case
  proof (cases "(r + 2 ^ k) * (r + 2 ^ k) \<le> n")
    case True
    have "r + 2 ^ k + 2 ^ k = r + 2 ^ Suc k" by simp
    with Suc.prems True have "0 \<le> r + 2 ^ k" "n < (r + 2 ^ k + 2 ^ k) * (r + 2 ^ k + 2 ^ k)"
      by (simp_all add: add.commute)
    with Suc.IH [of "r + 2 ^ k"] True show ?thesis by simp
  next
    case False
    with Suc.IH [of r] Suc.prems show ?thesis by simp
  qed
qed

lemma isqrt_correct:
  assumes "0 \<le> n"
  shows "0 \<le> isqrt n" and "isqrt n * isqrt n \<le> n" and "n < (isqrt n + 1) * (isqrt n + 1)"
proof -
  have "n < 2 ^ nat (bitlen n)"
    using bitlen_bounds [of n] assms by (cases "n = 0") auto
  also have "\<dots> \<le> 2 ^ nat (bitlen n) * (2::int) ^ nat (bitlen n)"
    by (simp add: self_le_power)
  finally have "n < (0 + 2 ^ nat (bitlen n)) * (0 + 2 ^ nat (bitlen n))" by simp
  with sqrt_bits_correct [of 0 n "nat (bitlen n)"] assms
  show "0 \<le> isqrt n" "isqrt n * isqrt n \<le> n" "n < (isqrt n + 1) * (isqrt n + 1)"
    by (simp_all add: isqrt_def)
qed

lemma fsqrt_nonpos [simp]: "x \<le> 0 \<Longrightarrow> fsqrt x = 0"
  by (simp add: fsqrt_def)

lemma fsqrt_mantissa:
  assumes "0 < x"
  obtains n :: int and u :: rat where
    "fsqrt x = of_int n * u" "0 < u" "2 ^ 52 \<le> n"
    "(of_int n - 1 / 2) * (of_int n - 1 / 2) * (u * u) \<le> x"
    "x \<le> (of_int n + 1 / 2) * (of_int n + 1 / 2) * (u * u)"
proof -
  define e where "e = ilog2 x div 2"
  define u :: rat where "u = 2 powi (e - 52)"
  define y where "y = x / (u * u)"
  define s where "s = isqrt \<lfloor>y\<rfloor>"
  define h :: rat where "h = of_int (s * s + s) + 1 / 4"
  define n where "n = (if y < h then s else if h < y then s + 1 else if even s then s else s + 1)"
  have u: "0 < u" by (simp add: u_def)
  from assms have nz: "x \<noteq> 0" by simp
  have uu: "u * u = 2 powi (2 * e - 104)"
  proof -
    have "(2::rat) powi ((e - 52) + (e - 52)) = 2 powi (e - 52) * 2 powi (e - 52)"
      by (rule power_int_add) simp
    moreover have "(e - 52) + (e - 52) = 2 * e - 104" by simp
    ultimately show ?thesis by (simp add: u_def)
  qed
  have "2 * e \<le> ilog2 x" by (simp add: e_def)
  then have "(2::rat) powi (2 * e) \<le> 2 powi (ilog2 x)" by (rule two_powi_mono)
  also have "\<dots> \<le> x" using ilog2_bounds(1) [OF nz] assms by simp
  finally have "2 powi (2 * e) / (u * u) \<le> y"
    unfolding y_def using u by (simp add: divide_right_mono)
  moreover have "(2::rat) powi (2 * e) / (u * u) = 2 ^ 104"
  proof -
    have "(2::rat) powi ((2 * e - 104) + 104) = 2 powi (2 * e - 104) * 2 powi 104"
      by (rule power_int_add) simp
    then have "(2::rat) powi (2 * e) = u * u * 2 ^ 104" by (simp add: uu)
    then show ?thesis using u by simp
  qed
  ultimately have y104: "2 ^ 104 \<le> y" by simp
  then have "of_int (2 ^ 104) \<le> y" by simp
  then have f104: "2 ^ 104 \<le> \<lfloor>y\<rfloor>" by (simp only: le_floor_iff)
  have "(0::int) \<le> 2 ^ 104" by simp
  from this f104 have f0: "0 \<le> \<lfloor>y\<rfloor>" by (rule order_trans)
  note sq = isqrt_correct [OF f0, folded s_def]
  have s52: "2 ^ 52 \<le> s"
  proof (rule ccontr)
    assume "\<not> 2 ^ 52 \<le> s"
    then have "s + 1 \<le> 2 ^ 52" by simp
    with sq(1) have "(s + 1) * (s + 1) \<le> 2 ^ 52 * 2 ^ 52" by (intro mult_mono) simp_all
    also have "(2::int) ^ 52 * 2 ^ 52 = 2 ^ 104" by simp
    finally have "(s + 1) * (s + 1) \<le> 2 ^ 104" .
    with sq(3) have "\<lfloor>y\<rfloor> < 2 ^ 104" by (rule less_le_trans)
    moreover have "\<not> \<lfloor>y\<rfloor> < 2 ^ 104" using f104 by (rule leD)
    ultimately show False by blast
  qed
  have lo: "of_int (s * s) \<le> y"
  proof -
    have "of_int (s * s) \<le> (of_int \<lfloor>y\<rfloor> :: rat)" using sq(2) by (simp only: of_int_le_iff)
    also have "\<dots> \<le> y" by simp
    finally show ?thesis .
  qed
  have hi: "y < of_int ((s + 1) * (s + 1))"
  proof -
    from sq(3) have "\<lfloor>y\<rfloor> + 1 \<le> (s + 1) * (s + 1)" by simp
    then have "(of_int (\<lfloor>y\<rfloor> + 1) :: rat) \<le> of_int ((s + 1) * (s + 1))"
      by (simp only: of_int_le_iff)
    moreover have "y < of_int (\<lfloor>y\<rfloor> + 1)" by linarith
    ultimately show ?thesis by linarith
  qed
  define t :: rat where "t = of_int s"
  have t: "1 \<le> t" using s52 by (simp add: t_def)
  have lo': "t * t \<le> y" using lo by (simp add: t_def)
  have hi': "y < (t + 1) * (t + 1)" using hi by (simp add: t_def)
  have h': "h = (t + 1 / 2) * (t + 1 / 2)" by (simp add: h_def t_def algebra_simps)
  have a1: "(t - 1 / 2) * (t - 1 / 2) \<le> t * t" using t by (simp add: algebra_simps)
  have a2: "(t + 1) * (t + 1) \<le> (t + 1 + 1 / 2) * (t + 1 + 1 / 2)"
    using t by (simp add: algebra_simps)
  have ns: "n = s \<or> n = s + 1" by (simp add: n_def)
  have nb: "(of_int n - 1 / 2) * (of_int n - 1 / 2) \<le> y \<and> y \<le> (of_int n + 1 / 2) * (of_int n + 1 / 2)"
  proof (cases "n = s")
    case True
    then have "\<not> h < y" by (auto simp: n_def split: if_splits)
    then have "y \<le> (t + 1 / 2) * (t + 1 / 2)" by (simp add: h')
    moreover from lo' a1 have "(t - 1 / 2) * (t - 1 / 2) \<le> y" by (rule order_trans [rotated])
    moreover have "of_int n = t" by (simp add: True t_def)
    ultimately show ?thesis by simp
  next
    case False
    with ns have n1: "n = s + 1" by simp
    with False have "\<not> y < h" by (auto simp: n_def split: if_splits)
    then have "(t + 1 / 2) * (t + 1 / 2) \<le> y" by (simp add: h')
    moreover from hi' a2 have "y \<le> (t + 1 + 1 / 2) * (t + 1 + 1 / 2)" by linarith
    moreover have "of_int n = t + 1" by (simp add: n1 t_def)
    moreover have "t + 1 - 1 / 2 = t + 1 / 2" by simp
    ultimately show ?thesis by (simp only:)
  qed
  have uu0: "0 < u * u" using u by simp
  have x: "x = y * (u * u)" using u by (simp add: y_def)
  have b1: "(of_int n - 1 / 2) * (of_int n - 1 / 2) * (u * u) \<le> x"
    unfolding x using nb uu0 by (intro mult_right_mono) simp_all
  have b2: "x \<le> (of_int n + 1 / 2) * (of_int n + 1 / 2) * (u * u)"
    unfolding x using nb uu0 by (intro mult_right_mono) simp_all
  have n52: "2 ^ 52 \<le> n" using ns s52 by auto
  have "fsqrt x = of_int n * u"
    using assms by (simp add: fsqrt_def Let_def n_def h_def s_def y_def u_def e_def)
  then show ?thesis using u n52 b1 b2 by (rule that)
qed

lemma fsqrt_pos: "0 < x \<Longrightarrow> 0 < fsqrt x"
proof -
  assume "0 < x"
  then obtain n :: int and u :: rat where nu: "fsqrt x = of_int n * u" "0 < u" "2 ^ 52 \<le> n"
    by (rule fsqrt_mantissa)
  have "(0::int) < 2 ^ 52" by simp
  from this nu(3) have "0 < n" by (rule less_le_trans)
  with nu show ?thesis by simp
qed

lemma fsqrt_eq_0_iff [simp]: "fsqrt x = 0 \<longleftrightarrow> x \<le> 0"
  using fsqrt_pos [of x] by (cases "x \<le> 0") auto

lemma fsqrt_bounds:
  assumes "0 < x"
  shows "(fsqrt x * (1 - 1 / 2 ^ 53)) * (fsqrt x * (1 - 1 / 2 ^ 53)) \<le> x"
    and "x \<le> (fsqrt x * (1 + 1 / 2 ^ 53)) * (fsqrt x * (1 + 1 / 2 ^ 53))"
proof -
  from assms obtain n :: int and u :: rat where nu: "fsqrt x = of_int n * u" "0 < u" "2 ^ 52 \<le> n"
    "(of_int n - 1 / 2) * (of_int n - 1 / 2) * (u * u) \<le> x"
    "x \<le> (of_int n + 1 / 2) * (of_int n + 1 / 2) * (u * u)"
    by (rule fsqrt_mantissa)
  define a :: rat where "a = of_int n"
  define eps :: rat where "eps = 1 / 2 ^ 53"
  have "(2::rat) ^ 52 \<le> of_int n" using nu(3) by (metis of_int_le_iff of_int_numeral of_int_power)
  then have a: "2 ^ 52 \<le> a" by (simp add: a_def)
  then have half: "1 / 2 \<le> a * eps" by (simp add: eps_def)
  have a0: "0 \<le> a" using a by (rule order_trans [rotated]) simp
  have e1: "eps \<le> 1" by (simp add: eps_def)
  have lo0: "0 \<le> a * (1 - eps)" using a0 e1 by simp
  have lo1: "a * (1 - eps) \<le> a - 1 / 2" using half by (simp add: algebra_simps)
  have hi0: "0 \<le> a + 1 / 2" using a0 by simp
  have hi1: "a + 1 / 2 \<le> a * (1 + eps)" using half by (simp add: algebra_simps)
  have uu: "0 \<le> u * u" using nu(2) by simp
  have "(fsqrt x * (1 - eps)) * (fsqrt x * (1 - eps)) = (a * (1 - eps)) * (a * (1 - eps)) * (u * u)"
    by (simp add: nu(1) a_def)
  also have "\<dots> \<le> (a - 1 / 2) * (a - 1 / 2) * (u * u)"
    using lo0 lo1 uu by (intro mult_right_mono mult_mono) simp_all
  also have "\<dots> \<le> x" using nu(4) by (simp add: a_def)
  finally show "(fsqrt x * (1 - 1 / 2 ^ 53)) * (fsqrt x * (1 - 1 / 2 ^ 53)) \<le> x"
    by (simp only: eps_def)
  have "x \<le> (a + 1 / 2) * (a + 1 / 2) * (u * u)" using nu(5) by (simp add: a_def)
  also have "\<dots> \<le> (a * (1 + eps)) * (a * (1 + eps)) * (u * u)"
    using hi0 hi1 uu by (intro mult_right_mono mult_mono) simp_all
  also have "\<dots> = (fsqrt x * (1 + eps)) * (fsqrt x * (1 + eps))"
    by (simp add: nu(1) a_def)
  finally show "x \<le> (fsqrt x * (1 + 1 / 2 ^ 53)) * (fsqrt x * (1 + 1 / 2 ^ 53))"
    by (simp only: eps_def)
qed

subsection \<open>Exact sums of integers\<close>

lemma sum_squares_simps [simp]:
  "sum_squares [] = 0" "sum_squares (x # xs) = x * x + sum_squares xs"
  by (simp_all add: sum_squares_def)

lemma dot_product_simps [simp]:
  "dot_product [] ys = 0" "dot_product xs [] = 0"
  "dot_product (x # xs) (y # ys) = x * y + dot_product xs ys"
  by (simp_all add: dot_product_def)

lemma dot_product_self: "dot_product v v = sum_squares v"
  by (induction v) simp_all

lemma dot_product_commute: "dot_product a b = dot_product b a"
  by (induction a b rule: list_induct2') (simp_all add: mult.commute)

lemma sum_squares_nonneg: "0 \<le> sum_squares v"
  by (induction v) simp_all

lemma sum_squares_member: "x \<in> set v \<Longrightarrow> x * x \<le> sum_squares v"
  using sum_squares_nonneg by (induction v) (auto simp: add_increasing add_increasing2)

lemma sum_squares_eq_0_iff: "sum_squares v = 0 \<longleftrightarrow> (\<forall>x\<in>set v. x = 0)"
proof (induction v)
  case (Cons x v)
  have "0 \<le> x * x" by simp
  with sum_squares_nonneg [of v] have "x * x + sum_squares v = 0 \<longleftrightarrow> x * x = 0 \<and> sum_squares v = 0"
    by linarith
  with Cons show ?case by simp
qed simp

lemma abs_le_square: "\<bar>x\<bar> \<le> x * (x::int)"
proof (cases "x = 0")
  case False
  then have "1 \<le> \<bar>x\<bar>" by simp
  then have "\<bar>x\<bar> * 1 \<le> \<bar>x\<bar> * \<bar>x\<bar>" by (intro mult_left_mono) simp_all
  then show ?thesis by (simp add: abs_mult_self_eq)
qed simp

lemma float_vector_exact:
  assumes "sum_squares v \<le> 2 ^ 53"
  shows "map float_of_int v = map of_int v" and "map fsquare (map of_int v) = map of_int (map (\<lambda>x. x * x) v)"
proof -
  have b: "x * x \<le> 2 ^ 53" if "x \<in> set v" for x
    using sum_squares_member [OF that] assms by linarith
  have "float_of_int x = of_int x" if "x \<in> set v" for x
    unfolding float_of_int_def using abs_le_square [of x] b [OF that]
    by (intro fl_of_int) linarith
  then show "map float_of_int v = map of_int v" by simp
  have "fsquare (of_int x) = of_int (x * x)" if "x \<in> set v" for x
  proof -
    have "\<bar>x * x\<bar> \<le> 2 ^ 53" using b [OF that] by simp
    then have "fl (of_int (x * x)) = of_int (x * x)" by (rule fl_of_int)
    then show ?thesis by (simp add: fsquare_def)
  qed
  then show "map fsquare (map of_int v) = map of_int (map (\<lambda>x. x * x) v)" by simp
qed

lemma foldl_fadd_exact:
  "\<bar>acc\<bar> + sum_list (map abs ks) \<le> 2 ^ 53 \<Longrightarrow>
   foldl fadd (of_int acc) (map of_int ks) = of_int (acc + sum_list ks)"
proof (induction ks arbitrary: acc)
  case Nil
  then show ?case by simp
next
  case (Cons k ks)
  have s: "0 \<le> sum_list (map abs ks)" by (rule sum_list_nonneg) auto
  have "\<bar>acc + k\<bar> \<le> 2 ^ 53" using Cons.prems s by simp
  then have "fl (of_int (acc + k)) = of_int (acc + k)" by (rule fl_of_int)
  then have "fadd (of_int acc) (of_int k) = of_int (acc + k)" by (simp add: fadd_def)
  moreover have "foldl fadd (of_int (acc + k)) (map of_int ks) = of_int (acc + k + sum_list ks)"
    using Cons.prems by (intro Cons.IH) simp
  ultimately show ?case by (simp add: add.assoc)
qed

lemma py_sum_exact:
  "sum_list (map abs ks) \<le> 2 ^ 53 \<Longrightarrow> py_sum (map of_int ks) = of_int (sum_list ks)"
  using foldl_fadd_exact [of 0 ks] by (simp add: py_sum_def)

lemma member_le_sum_list_int:
  "\<forall>k\<in>set ks. 0 \<le> k \<Longrightarrow> x \<in> set ks \<Longrightarrow> x \<le> sum_list (ks :: int list)"
proof (induction ks)
  case (Cons k ks)
  have "0 \<le> sum_list ks" using Cons.prems(1) by (simp add: sum_list_nonneg)
  with Cons show ?case by auto
qed simp

lemma products_exact:
  assumes "sum_list (map abs (map (\<lambda>(x, y). x * y) (zip a b))) \<le> 2 ^ 53"
  shows "map (\<lambda>(x, y). fmul x y) (zip (map of_int a) (map of_int b)) =
         map of_int (map (\<lambda>(x, y). x * y) (zip a b))"
proof -
  have "fmul (of_int x) (of_int y) = of_int (x * y)" if "(x, y) \<in> set (zip a b)" for x y
  proof -
    from that have "\<bar>x * y\<bar> \<in> set (map abs (map (\<lambda>(x, y). x * y) (zip a b)))" by force
    then have "\<bar>x * y\<bar> \<le> sum_list (map abs (map (\<lambda>(x, y). x * y) (zip a b)))"
      by (intro member_le_sum_list_int) auto
    with assms have "\<bar>x * y\<bar> \<le> 2 ^ 53" by linarith
    then have "fl (of_int (x * y)) = of_int (x * y)" by (rule fl_of_int)
    then show ?thesis by (simp add: fmul_def)
  qed
  then show ?thesis by (auto simp: zip_map1 zip_map2 zip_map_map)
qed

lemma square_le_imp_le:
  fixes x y :: "'a::linordered_idom"
  assumes "x * x \<le> y * y" "0 \<le> y"
  shows "x \<le> y"
proof (rule ccontr)
  assume "\<not> x \<le> y"
  then have "y < x" by simp
  with assms(2) have "y * y < x * x" by (intro mult_strict_mono') simp_all
  with assms(1) show False by simp
qed

lemma two_product_le_sum:
  fixes A B C :: int
  assumes "0 \<le> A" "0 \<le> B" "C * C \<le> A * B"
  shows "2 * C \<le> A + B"
proof (rule square_le_imp_le)
  have "0 \<le> (A - B) * (A - B)" by simp
  then have "4 * (A * B) \<le> (A + B) * (A + B)" by (simp add: algebra_simps)
  moreover have "(2 * C) * (2 * C) = 4 * (C * C)" by simp
  ultimately show "(2 * C) * (2 * C) \<le> (A + B) * (A + B)" using assms(3) by linarith
  show "0 \<le> A + B" using assms by simp
qed

lemma cauchy_schwarz:
  "dot_product a b * dot_product a b \<le> sum_squares a * sum_squares b"
proof (induction a b rule: list_induct2')
  case (4 x xs y ys)
  let ?D = "dot_product xs ys" and ?S = "sum_squares xs" and ?T = "sum_squares ys"
  have S: "0 \<le> ?S" and T: "0 \<le> ?T" by (rule sum_squares_nonneg)+
  have "(?D * (x * y)) * (?D * (x * y)) = (?D * ?D) * ((x * x) * (y * y))"
    by (simp add: algebra_simps)
  also have "\<dots> \<le> (?S * ?T) * ((x * x) * (y * y))"
    using 4 by (intro mult_right_mono) simp_all
  also have "\<dots> = (?S * (y * y)) * (?T * (x * x))" by (simp add: algebra_simps)
  finally have "2 * (?D * (x * y)) \<le> ?S * (y * y) + ?T * (x * x)"
    using S T by (intro two_product_le_sum) simp_all
  with 4 show ?case by (simp add: algebra_simps)
next
  case (2 x xs)
  then show ?case by simp
next
  case (3 y ys)
  then show ?case by simp
qed simp

lemma abs_products: 
  "sum_list (map abs (map (\<lambda>(x, y). x * y) (zip a b))) = dot_product (map abs a) (map abs b)"
  by (induction a b rule: list_induct2') (simp_all add: abs_mult)

lemma sum_squares_abs: "sum_squares (map abs v) = sum_squares v"
  by (induction v) simp_all

lemma abs_products_bound:
  assumes "sum_squares a \<le> 2 ^ 53" "sum_squares b \<le> 2 ^ 53"
  shows "sum_list (map abs (map (\<lambda>(x, y). x * y) (zip a b))) \<le> 2 ^ 53"
proof -
  let ?D = "dot_product (map abs a) (map abs b)"
  have "?D * ?D \<le> sum_squares a * sum_squares b"
    using cauchy_schwarz [of "map abs a" "map abs b"] by (simp only: sum_squares_abs)
  also have "\<dots> \<le> 2 ^ 53 * 2 ^ 53"
    using assms sum_squares_nonneg [of a] sum_squares_nonneg [of b] by (intro mult_mono) simp_all
  finally have "?D \<le> 2 ^ 53" by (rule square_le_imp_le) simp
  then show ?thesis by (simp only: abs_products)
qed

lemma cosine_exact:
  assumes "sum_squares a \<le> 2 ^ 53" "sum_squares b \<le> 2 ^ 53"
  shows "calculate_cosine_similarity pw a b =
    (if pw (of_int (sum_squares a)) = 0 \<or> pw (of_int (sum_squares b)) = 0 then Inr 0
     else Inr (fl (of_int (dot_product a b) /
                   fl (pw (of_int (sum_squares a)) * pw (of_int (sum_squares b))))))"
proof -
  have m: "py_sum (map fsquare (map float_of_int v)) = of_int (sum_squares v)"
    if "sum_squares v \<le> 2 ^ 53" for v
  proof -
    have "map fsquare (map float_of_int v) = map of_int (map (\<lambda>x. x * x) v)"
      by (simp only: float_vector_exact [OF that])
    moreover have "map abs (map (\<lambda>x. x * x) v) = map (\<lambda>x. x * x) v" by simp
    then have "py_sum (map of_int (map (\<lambda>x. x * x) v)) = of_int (sum_list (map (\<lambda>x. x * x) v))"
      using that by (intro py_sum_exact) (simp only: sum_squares_def)
    ultimately show ?thesis by (simp only: sum_squares_def)
  qed
  note m1 = m [OF assms(1)] and m2 = m [OF assms(2)]
  note pr = abs_products_bound [OF assms]
  have "map (\<lambda>(x, y). fmul x y) (zip (map float_of_int a) (map float_of_int b)) =
      map of_int (map (\<lambda>(x, y). x * y) (zip a b))"
    by (simp only: float_vector_exact(1) [OF assms(1)] float_vector_exact(1) [OF assms(2)]
        products_exact [OF pr])
  moreover have "py_sum (map of_int (map (\<lambda>(x, y). x * y) (zip a b))) =
      of_int (sum_list (map (\<lambda>(x, y). x * y) (zip a b)))"
    using pr by (rule py_sum_exact)
  ultimately have d: "py_sum (map (\<lambda>(x, y). fmul x y) (zip (map float_of_int a) (map float_of_int b))) =
      of_int (dot_product a b)"
    by (simp only: dot_product_def)
  show ?thesis
    unfolding calculate_cosine_similarity_def Let_def m1 m2 d
    by (simp add: fdiv_def fmul_def)
qed

lemma dot_product_zero:
  assumes "sum_squares a = 0 \<or> sum_squares b = 0"
  shows "dot_product a b = 0"
proof -
  have l: "\<forall>x\<in>set a. x = 0 \<Longrightarrow> dot_product a b = 0" for a b
    by (induction a b rule: list_induct2') simp_all
  have r: "\<forall>y\<in>set b. y = 0 \<Longrightarrow> dot_product a b = 0" for a b
    by (induction a b rule: list_induct2') simp_all
  from assms l [of a b] r [of b a] show ?thesis by (auto simp: sum_squares_eq_0_iff)
qed

lemma cosine_zero_dot:
  assumes "sum_squares a \<le> 2 ^ 53" "sum_squares b \<le> 2 ^ 53" "dot_product a b = 0"
  shows "calculate_cosine_similarity pw a b = Inr 0"
  using assms by (simp add: cosine_exact)

lemma cosine_self_exact:
  assumes "of_int (sum_squares v) = s" "sum_squares v \<le> 2 ^ 53" "pw s = m" "m \<noteq> 0"
  shows "calculate_cosine_similarity pw v v = Inr (fl (s / fl (m * m)))"
  using assms by (auto simp: cosine_exact dot_product_self)

subsection \<open>Rounding error of the quotient\<close>

lemma fl_near_one:
  "fl (1 + 3 / 2 ^ 52) = 1 + 3 / 2 ^ 52" "fl (1 - 5 / 2 ^ 53) = 1 - 5 / 2 ^ 53"
proof -
  have "fl (of_int (2 ^ 52 + 3) * 2 powi (- 52)) = of_int (2 ^ 52 + 3) * 2 powi (- 52)"
    by (rule fl_exact) simp
  then show "fl (1 + 3 / 2 ^ 52) = 1 + 3 / 2 ^ 52" by simp
  have "fl (of_int (2 ^ 53 - 5) * 2 powi (- 53)) = of_int (2 ^ 53 - 5) * 2 powi (- 53)"
    by (rule fl_exact) simp
  then show "fl (1 - 5 / 2 ^ 53) = 1 - 5 / 2 ^ 53" by simp
qed

lemma fl_product_bounds:
  assumes "0 < x"
  shows "x * (1 - 1 / 2 ^ 53) \<le> fl x" and "fl x \<le> x * (1 + 1 / 2 ^ 53)"
proof -
  define eps :: rat where "eps = 1 / 2 ^ 53"
  have "\<bar>fl x - x\<bar> \<le> x * eps" using fl_rel_error_pos [OF assms] by (simp add: eps_def)
  then have "x - x * eps \<le> fl x" "fl x \<le> x + x * eps" by linarith+
  then have "x * (1 - eps) \<le> fl x" "fl x \<le> x * (1 + eps)" by (simp_all add: algebra_simps)
  then show "x * (1 - 1 / 2 ^ 53) \<le> fl x" and "fl x \<le> x * (1 + 1 / 2 ^ 53)"
    by (simp_all only: eps_def)
qed

lemma root_within_unit:
  assumes "root_within (1 / 2 ^ 52) s m"
  shows "0 < m" and "(m * (1 - 2 * (1 / 2 ^ 53))) * (m * (1 - 2 * (1 / 2 ^ 53))) \<le> s"
    and "s \<le> (m * (1 + 2 * (1 / 2 ^ 53))) * (m * (1 + 2 * (1 / 2 ^ 53)))"
proof -
  have e: "(1::rat) / 2 ^ 52 = 2 * (1 / 2 ^ 53)" by simp
  from assms show "0 < m" by (simp only: root_within_def)
  from assms have "(m * (1 - 1 / 2 ^ 52)) * (m * (1 - 1 / 2 ^ 52)) \<le> s"
    by (simp only: root_within_def)
  then show "(m * (1 - 2 * (1 / 2 ^ 53))) * (m * (1 - 2 * (1 / 2 ^ 53))) \<le> s"
    by (simp only: e)
  from assms have "s \<le> (m * (1 + 1 / 2 ^ 52)) * (m * (1 + 1 / 2 ^ 52))"
    by (simp only: root_within_def)
  then show "s \<le> (m * (1 + 2 * (1 / 2 ^ 53))) * (m * (1 + 2 * (1 / 2 ^ 53)))"
    by (simp only: e)
qed

lemma cosine_quotient_upper:
  assumes "0 \<le> d" "d * d \<le> s1 * s2"
    and "root_within (1 / 2 ^ 52) s1 m1" "root_within (1 / 2 ^ 52) s2 m2"
  shows "fl (d / fl (m1 * m2)) \<le> 1 + 3 / 2 ^ 52"
proof -
  define eps :: rat where "eps = 1 / 2 ^ 53"
  have e: "0 < eps" "eps < 1" "10 * eps \<le> 1" by (simp_all add: eps_def)
  note r1 = root_within_unit [OF assms(3), folded eps_def]
  note r2 = root_within_unit [OF assms(4), folded eps_def]
  have s2: "0 \<le> s2" using r2(2) by (rule order_trans [rotated]) simp
  define A where "A = (m1 * m2) * ((1 + 2 * eps) * (1 + 2 * eps))"
  define B where "B = (m1 * m2) * (1 - eps)"
  have A0: "0 \<le> A" using r1(1) r2(1) e by (simp add: A_def)
  have B0: "0 < B" using r1(1) r2(1) e by (simp add: B_def)
  have "s1 * s2 \<le> ((m1 * (1 + 2 * eps)) * (m1 * (1 + 2 * eps))) *
      ((m2 * (1 + 2 * eps)) * (m2 * (1 + 2 * eps)))"
    using r1(3) r2(3) s2 by (intro mult_mono) simp_all
  also have "\<dots> = A * A" by (simp add: A_def algebra_simps)
  finally have "d * d \<le> A * A" using assms(2) by simp
  then have dA: "d \<le> A" using A0 by (rule square_le_imp_le)
  have pB: "B \<le> fl (m1 * m2)"
    unfolding B_def eps_def using r1(1) r2(1) by (intro fl_product_bounds) simp
  have "d / fl (m1 * m2) \<le> A / B" using A0 dA B0 pB by (intro frac_le) simp_all
  also have "A / B = ((1 + 2 * eps) * (1 + 2 * eps)) / (1 - eps)"
    using r1(1) r2(1) by (simp add: A_def B_def)
  also have "\<dots> \<le> 1 + 6 * eps"
  proof -
    have "(1 + 2 * eps) * (1 + 2 * eps) \<le> (1 + 6 * eps) * (1 - eps)"
    proof -
      have "10 * eps * eps \<le> 1 * eps" using e by (intro mult_right_mono) simp_all
      then show ?thesis by (simp add: algebra_simps)
    qed
    then show ?thesis using e by (simp add: pos_divide_le_eq)
  qed
  also have "1 + 6 * eps = 1 + 3 / 2 ^ 52" by (simp add: eps_def)
  finally have "fl (d / fl (m1 * m2)) \<le> fl (1 + 3 / 2 ^ 52)" by (rule fl_mono)
  then show ?thesis by (simp only: fl_near_one)
qed

lemma cosine_self_lower:
  assumes "root_within (1 / 2 ^ 52) s m"
  shows "1 - 5 / 2 ^ 53 \<le> fl (s / fl (m * m))"
proof -
  define eps :: rat where "eps = 1 / 2 ^ 53"
  have e: "0 < eps" "eps < 1" by (simp_all add: eps_def)
  note r = root_within_unit [OF assms, folded eps_def]
  define A where "A = (m * m) * ((1 - 2 * eps) * (1 - 2 * eps))"
  define B where "B = (m * m) * (1 + eps)"
  have A0: "0 \<le> A" using r(1) by (simp add: A_def)
  have B0: "0 < B" using r(1) e by (simp add: B_def)
  have As: "A \<le> s" using r(2) by (simp add: A_def algebra_simps)
  have p0: "0 < fl (m * m)" using r(1) by (intro fl_pos) simp
  have pB: "fl (m * m) \<le> B"
    unfolding B_def eps_def using r(1) by (intro fl_product_bounds) simp
  have "1 - 5 * eps \<le> ((1 - 2 * eps) * (1 - 2 * eps)) / (1 + eps)"
  proof -
    have "0 \<le> 9 * (eps * eps)" by simp
    then have "(1 - 5 * eps) * (1 + eps) \<le> (1 - 2 * eps) * (1 - 2 * eps)"
      by (simp add: algebra_simps)
    then show ?thesis using e by (simp add: pos_le_divide_eq)
  qed
  also have "\<dots> = A / B" using r(1) by (simp add: A_def B_def)
  also have "\<dots> \<le> s / fl (m * m)" using A0 As p0 pB by (intro frac_le) simp_all
  finally have "fl (1 - 5 * eps) \<le> fl (s / fl (m * m))" by (rule fl_mono)
  moreover have "1 - 5 * eps = 1 - 5 / 2 ^ 53" by (simp add: eps_def)
  ultimately show ?thesis by (simp only: fl_near_one)
qed

text \<open>The sample power function is within half a unit in the last place everywhere.\<close>

lemma fsqrt_root_within:
  assumes "0 < x"
  shows "root_within (1 / 2 ^ 52) x (fsqrt x)"
proof -
  define m where "m = fsqrt x"
  have m: "0 < m" using assms by (simp add: m_def fsqrt_pos)
  have lo: "(m * (1 - 1 / 2 ^ 53)) * (m * (1 - 1 / 2 ^ 53)) \<le> x"
    and hi: "x \<le> (m * (1 + 1 / 2 ^ 53)) * (m * (1 + 1 / 2 ^ 53))"
    unfolding m_def using assms by (rule fsqrt_bounds)+
  have a: "m * (1 - 1 / 2 ^ 52) \<le> m * (1 - 1 / 2 ^ 53)" using m by simp
  have a0: "0 \<le> m * (1 - 1 / 2 ^ 52)" using m by simp
  have "(m * (1 - 1 / 2 ^ 52)) * (m * (1 - 1 / 2 ^ 52)) \<le>
      (m * (1 - 1 / 2 ^ 53)) * (m * (1 - 1 / 2 ^ 53))"
    using a a0 by (intro mult_mono) simp_all
  from this lo have 1: "(m * (1 - 1 / 2 ^ 52)) * (m * (1 - 1 / 2 ^ 52)) \<le> x"
    by (rule order_trans)
  have b: "m * (1 + 1 / 2 ^ 53) \<le> m * (1 + 1 / 2 ^ 52)" using m by simp
  have b0: "0 \<le> m * (1 + 1 / 2 ^ 53)" using m by simp
  have "(m * (1 + 1 / 2 ^ 53)) * (m * (1 + 1 / 2 ^ 53)) \<le>
      (m * (1 + 1 / 2 ^ 52)) * (m * (1 + 1 / 2 ^ 52))"
    using b b0 by (intro mult_mono) simp_all
  with hi have 2: "x \<le> (m * (1 + 1 / 2 ^ 52)) * (m * (1 + 1 / 2 ^ 52))"
    by (rule order_trans)
  from m 1 2 show ?thesis by (simp only: root_within_def m_def)
qed

subsection \<open>Identical vectors\<close>

lemma fsqrt_3: "fsqrt 3 = 3900231685776981 / 2251799813685248"
  by code_simp

lemma fsqrt_14: "fsqrt 14 = 8425463406411593 / 2251799813685248"
  by code_simp

lemma fl_sqrt_3_squared:
  "fl (3900231685776981 / 2251799813685248 * (3900231685776981 / 2251799813685248)) =
   6755399441055743 / 2251799813685248"
  by code_simp

lemma fl_sqrt_14_squared:
  "fl (8425463406411593 / 2251799813685248 * (8425463406411593 / 2251799813685248)) = 14"
  by code_simp

lemma fl_3_quotient:
  "fl (3 / (6755399441055743 / 2251799813685248)) = 4503599627370497 / 4503599627370496"
  by code_simp

lemma cosine_111:
  assumes "pw 3 = 3900231685776981 / 2251799813685248"
  shows "calculate_cosine_similarity pw [1, 1, 1] [1, 1, 1] = Inr (1 + 1 / 2 ^ 52)"
proof -
  have "calculate_cosine_similarity pw [1, 1, 1] [1, 1, 1] =
      Inr (fl (3 /
        fl (3900231685776981 / 2251799813685248 * (3900231685776981 / 2251799813685248))))"
    using assms by (intro cosine_self_exact) simp_all
  then show ?thesis
    by (simp only: fl_sqrt_3_squared fl_3_quotient) simp
qed

text \<open>
  C3 as stated fails: the magnitude is a rounded square root, and the product of the two
  magnitudes need not round back to the sum of squares. \<^verbatim>\<open>3.0 ** 0.5\<close> is
  \<^verbatim>\<open>1.7320508075688772\<close>, the correctly rounded root and the value of the sample
  function; with it the result for \<^verbatim>\<open>[1, 1, 1]\<close> is the float after 1.0,
  \<^verbatim>\<open>1.0000000000000002\<close>.
\<close>

theorem cosine_identical_counterexample:
  "fsqrt 3 = 3900231685776981 / 2251799813685248 \<and>
   calculate_cosine_similarity fsqrt [1, 1, 1] [1, 1, 1] = Inr (1 + 1 / 2 ^ 52) \<and>
   calculate_cosine_similarity fsqrt [1, 1, 1] [1, 1, 1] \<noteq> Inr 1"
  by (simp add: cosine_111 fsqrt_3)

lemma cosine_123:
  assumes "pw 14 = 8425463406411593 / 2251799813685248"
  shows "calculate_cosine_similarity pw [1, 2, 3] [1, 2, 3] = Inr 1"
proof -
  have "calculate_cosine_similarity pw [1, 2, 3] [1, 2, 3] =
      Inr (fl (14 /
        fl (8425463406411593 / 2251799813685248 * (8425463406411593 / 2251799813685248))))"
    using assms by (intro cosine_self_exact) simp_all
  then show ?thesis
    by (simp only: fl_sqrt_14_squared) simp
qed

lemma cosine_orthogonal: "calculate_cosine_similarity pw [1, 0] [0, 1] = Inr 0"
  by (rule cosine_zero_dot) simp_all

lemma cosine_zero_vector: "calculate_cosine_similarity pw [0, 0] [1, 2] = Inr 0"
  by (rule cosine_zero_dot) simp_all

lemma cosine_self_bounds:
  assumes "sum_squares v \<le> 2 ^ 53"
    and "root_within (1 / 2 ^ 52) (of_int (sum_squares v)) (pw (of_int (sum_squares v)))"
  shows "\<exists>q. calculate_cosine_similarity pw v v = Inr q \<and>
    q = fl (of_int (sum_squares v) /
            fl (pw (of_int (sum_squares v)) * pw (of_int (sum_squares v)))) \<and>
    1 - 5 / 2 ^ 53 \<le> q \<and> q \<le> 1 + 3 / 2 ^ 52"
proof -
  define s :: rat where "s = of_int (sum_squares v)"
  define m where "m = pw s"
  have r: "root_within (1 / 2 ^ 52) s m" using assms(2) by (simp only: s_def m_def)
  then have m: "m \<noteq> 0" by (auto simp: root_within_def)
  have s: "0 \<le> s" using sum_squares_nonneg [of v] by (simp add: s_def)
  have "calculate_cosine_similarity pw v v = Inr (fl (s / fl (m * m)))"
    using assms(1) m by (intro cosine_self_exact) (simp_all add: m_def s_def)
  moreover have "1 - 5 / 2 ^ 53 \<le> fl (s / fl (m * m))"
    using r by (rule cosine_self_lower)
  moreover have "fl (s / fl (m * m)) \<le> 1 + 3 / 2 ^ 52"
    using s _ r r by (rule cosine_quotient_upper) simp
  ultimately show ?thesis by (simp only: m_def s_def) blast
qed

lemma cosine_self_one:
  assumes "sum_squares v \<noteq> 0" "sum_squares v \<le> 2 ^ 53"
    and "fl (pw (of_int (sum_squares v)) * pw (of_int (sum_squares v))) = of_int (sum_squares v)"
  shows "calculate_cosine_similarity pw v v = Inr 1"
proof -
  define s :: rat where "s = of_int (sum_squares v)"
  have s: "s \<noteq> 0" using assms(1) by (simp add: s_def)
  from assms(3) have p: "fl (pw s * pw s) = s" by (simp only: s_def)
  with s have "pw s \<noteq> 0" by auto
  then have "calculate_cosine_similarity pw v v = Inr (fl (s / fl (pw s * pw s)))"
    using assms(2) by (intro cosine_self_exact) (simp_all add: s_def)
  with s show ?thesis by (simp add: p)
qed

text \<open>
  C3 (as amended). Whatever the runtime's \<^verbatim>\<open>x ** 0.5\<close> is,
  \<^verbatim>\<open>calculate_cosine_similarity\<close> returns 0.0 for \<^verbatim>\<open>[1,0]\<close> and \<^verbatim>\<open>[0,1]\<close> and for
  \<^verbatim>\<open>[0,0]\<close> and \<^verbatim>\<open>[1,2]\<close>; it returns 1.0 for \<^verbatim>\<open>[1,2,3]\<close> with itself where
  \<^verbatim>\<open>14.0 ** 0.5\<close> is \<^verbatim>\<open>3.7416573867739413\<close>. For a non-zero integer vector whose sum of
  squares \<open>s\<close> is at most \<open>2 ^ 53\<close> (so that the float sums are exact), the similarity
  of the vector with itself is exactly 1.0 when the float product of the magnitude with
  itself is \<open>s\<close> again; when the magnitude is less than one unit in the last place away
  from the square root of \<open>s\<close>, the similarity is the float quotient of \<open>s\<close> by that
  product and is 1 up to rounding: it lies between \<open>1 - 5 / 2 ^ 53\<close> and
  \<open>1 + 3 / 2 ^ 52\<close>.
\<close>

theorem cosine_similarity_identical:
  "calculate_cosine_similarity pw [1, 0] [0, 1] = Inr 0 \<and>
   calculate_cosine_similarity pw [0, 0] [1, 2] = Inr 0 \<and>
   (pw 14 = 8425463406411593 / 2251799813685248 \<longrightarrow>
      calculate_cosine_similarity pw [1, 2, 3] [1, 2, 3] = Inr 1) \<and>
   (sum_squares v \<noteq> 0 \<and> sum_squares v \<le> 2 ^ 53 \<and>
    fl (pw (of_int (sum_squares v)) * pw (of_int (sum_squares v))) = of_int (sum_squares v) \<longrightarrow>
      calculate_cosine_similarity pw v v = Inr 1) \<and>
   (sum_squares v \<noteq> 0 \<and> sum_squares v \<le> 2 ^ 53 \<and>
    root_within (1 / 2 ^ 52) (of_int (sum_squares v)) (pw (of_int (sum_squares v))) \<longrightarrow>
      (\<exists>q. calculate_cosine_similarity pw v v = Inr q \<and>
           q = fl (of_int (sum_squares v) /
                   fl (pw (of_int (sum_squares v)) * pw (of_int (sum_squares v)))) \<and>
           1 - 5 / 2 ^ 53 \<le> q \<and> q \<le> 1 + 3 / 2 ^ 52))"
  using cosine_123 [of pw] cosine_orthogonal [of pw] cosine_zero_vector [of pw]
    cosine_self_bounds [of v pw] cosine_self_one [of v pw]
  by blast

lemma runtime_root_3541:
  "root_within (1 / 2 ^ 52) 3541 (8374767511146355 / 140737488355328)"
  "fl (8374767511146355 / 140737488355328 * (8374767511146355 / 140737488355328)) =
   7786741347909633 / 2199023255552"
  "fl (3541 / (7786741347909633 / 2199023255552)) = 9007199254740991 / 9007199254740992"
  "fdiv 25 (fmul (8374767511146355 / 140737488355328) 1) =
   Inr (7568273379177727 / 18014398509481984)"
  by code_simp+

text \<open>
  The theorem at two power functions: the sample function, for \<^verbatim>\<open>[1,2,3]\<close>, and the
  sample function with the value \<^verbatim>\<open>59.506302187247364\<close> at 3541 (that of the library
  mentioned with \<open>root_within\<close>, not the correctly rounded root), for \<^verbatim>\<open>[25,54]\<close>, whose
  similarity with itself is then \<^verbatim>\<open>0.9999999999999999\<close>.
\<close>

theorem cosine_similarity_identical_witness:
  "fsqrt 14 = 8425463406411593 / 2251799813685248 \<and>
   calculate_cosine_similarity fsqrt [1, 2, 3] [1, 2, 3] = Inr 1 \<and>
   sum_squares [1, 2, 3] \<noteq> 0 \<and> sum_squares [1, 2, 3] \<le> 2 ^ 53 \<and>
   fl (fsqrt (of_int (sum_squares [1, 2, 3])) * fsqrt (of_int (sum_squares [1, 2, 3]))) =
     of_int (sum_squares [1, 2, 3]) \<and>
   sum_squares [25, 54] \<noteq> 0 \<and> sum_squares [25, 54] \<le> 2 ^ 53 \<and>
   root_within (1 / 2 ^ 52) (of_int (sum_squares [25, 54]))
     ((fsqrt(3541 := 8374767511146355 / 140737488355328)) (of_int (sum_squares [25, 54]))) \<and>
   calculate_cosine_similarity (fsqrt(3541 := 8374767511146355 / 140737488355328))
     [25, 54] [25, 54] = Inr (1 - 1 / 2 ^ 53) \<and>
   1 - 5 / 2 ^ 53 \<le> (1 - 1 / 2 ^ 53 :: rat) \<and> (1 - 1 / 2 ^ 53 :: rat) \<le> 1 + 3 / 2 ^ 52"
proof -
  let ?pw = "fsqrt(3541 := 8374767511146355 / 140737488355328)"
  have s: "sum_squares [1, 2, 3] = 14" "sum_squares [25, 54] = 3541" by simp_all
  have h1: "sum_squares [1, 2, 3] \<noteq> 0 \<and> sum_squares [1, 2, 3] \<le> 2 ^ 53 \<and>
    fl (fsqrt (of_int (sum_squares [1, 2, 3])) * fsqrt (of_int (sum_squares [1, 2, 3]))) =
      of_int (sum_squares [1, 2, 3])"
    by (simp only: s of_int_numeral fsqrt_14 fl_sqrt_14_squared) simp
  have h2: "sum_squares [25, 54] \<noteq> 0 \<and> sum_squares [25, 54] \<le> 2 ^ 53 \<and>
    root_within (1 / 2 ^ 52) (of_int (sum_squares [25, 54])) (?pw (of_int (sum_squares [25, 54])))"
    by (simp only: s of_int_numeral fun_upd_same runtime_root_3541) simp
  from cosine_similarity_identical [of fsqrt "[1, 2, 3]"] fsqrt_14
  have c1: "calculate_cosine_similarity fsqrt [1, 2, 3] [1, 2, 3] = Inr 1" by blast
  from cosine_similarity_identical [of ?pw "[25, 54]"] h2
  obtain q where q: "calculate_cosine_similarity ?pw [25, 54] [25, 54] = Inr q"
    "q = fl (of_int (sum_squares [25, 54]) /
            fl (?pw (of_int (sum_squares [25, 54])) * ?pw (of_int (sum_squares [25, 54]))))"
    "1 - 5 / 2 ^ 53 \<le> q" "q \<le> 1 + 3 / 2 ^ 52"
    by blast
  from q(2) have "q = 9007199254740991 / 9007199254740992"
    by (simp only: s of_int_numeral fun_upd_same runtime_root_3541)
  then have "q = 1 - 1 / 2 ^ 53" by simp
  with q(1) have c2: "calculate_cosine_similarity ?pw [25, 54] [25, 54] = Inr (1 - 1 / 2 ^ 53)"
    by (simp only:)
  have b: "1 - 5 / 2 ^ 53 \<le> (1 - 1 / 2 ^ 53 :: rat) \<and> (1 - 1 / 2 ^ 53 :: rat) \<le> 1 + 3 / 2 ^ 52"
    by simp
  from fsqrt_14 c1 h1 h2 c2 b show ?thesis by blast
qed

subsection \<open>Range and edge cases\<close>

lemma dot_product_nonneg:
  "\<forall>x\<in>set a. 0 \<le> x \<Longrightarrow> \<forall>y\<in>set b. 0 \<le> y \<Longrightarrow> 0 \<le> dot_product a b"
  by (induction a b rule: list_induct2') simp_all

lemma cosine_result_bounds:
  assumes "d * d \<le> s1 * s2"
    and "root_within (1 / 2 ^ 52) s1 m1" "root_within (1 / 2 ^ 52) s2 m2"
  shows "\<bar>fl (d / fl (m1 * m2))\<bar> \<le> 1 + 3 / 2 ^ 52"
    and "0 \<le> d \<Longrightarrow> 0 \<le> fl (d / fl (m1 * m2))"
proof -
  let ?p = "fl (m1 * m2)"
  have m: "0 < m1" "0 < m2" using assms(2,3) by (simp_all add: root_within_def)
  have p: "0 < ?p" using m by (intro fl_pos mult_pos_pos)
  show "0 \<le> fl (d / ?p)" if "0 \<le> d" using that p by (intro fl_nonneg) simp
  show "\<bar>fl (d / ?p)\<bar> \<le> 1 + 3 / 2 ^ 52"
  proof (cases "0 \<le> d")
    case True
    then have "0 \<le> fl (d / ?p)" using p by (intro fl_nonneg) simp
    with cosine_quotient_upper [OF True assms] show ?thesis by simp
  next
    case False
    then have d: "0 \<le> - d" by simp
    have "(- d) * (- d) \<le> s1 * s2" using assms(1) by simp
    from cosine_quotient_upper [OF d this assms(2,3)]
    have "- fl (d / ?p) \<le> 1 + 3 / 2 ^ 52" by (simp add: fl_minus)
    moreover have "fl (d / ?p) \<le> 0"
    proof -
      have "d / ?p \<le> 0" using d p by (simp add: divide_le_0_iff)
      then have "fl (d / ?p) \<le> fl 0" by (rule fl_mono)
      then show ?thesis by simp
    qed
    ultimately show ?thesis by simp
  qed
qed

lemma cosine_range_parts:
  assumes r: "sum_squares a \<le> 2 ^ 53" "sum_squares b \<le> 2 ^ 53"
  shows "\<exists>q. calculate_cosine_similarity pw a b = Inr q \<and>
      (sum_squares a = 0 \<or> sum_squares b = 0 \<longrightarrow> q = 0) \<and>
      (pw (of_int (sum_squares a)) = 0 \<or> pw (of_int (sum_squares b)) = 0 \<longrightarrow> q = 0) \<and>
      (pw (of_int (sum_squares a)) \<noteq> 0 \<and> pw (of_int (sum_squares b)) \<noteq> 0 \<longrightarrow>
         fdiv (of_int (dot_product a b))
           (fmul (pw (of_int (sum_squares a))) (pw (of_int (sum_squares b)))) = Inr q) \<and>
      ((sum_squares a \<noteq> 0 \<longrightarrow>
          root_within (1 / 2 ^ 52) (of_int (sum_squares a)) (pw (of_int (sum_squares a)))) \<and>
       (sum_squares b \<noteq> 0 \<longrightarrow>
          root_within (1 / 2 ^ 52) (of_int (sum_squares b)) (pw (of_int (sum_squares b)))) \<longrightarrow>
         \<bar>q\<bar> \<le> 1 + 3 / 2 ^ 52 \<and>
         ((\<forall>x\<in>set a. 0 \<le> x) \<and> (\<forall>y\<in>set b. 0 \<le> y) \<longrightarrow> 0 \<le> q))"
proof -
  define s1 s2 d :: rat where "s1 = of_int (sum_squares a)" and "s2 = of_int (sum_squares b)"
    and "d = of_int (dot_product a b)"
  define m1 m2 where "m1 = pw s1" and "m2 = pw s2"
  note e = cosine_exact [OF r, of pw, folded s1_def s2_def d_def, folded m1_def m2_def]
  have z: "d = 0" if "sum_squares a = 0 \<or> sum_squares b = 0"
    using dot_product_zero [OF that] by (simp add: d_def)
  show ?thesis
    unfolding s1_def [symmetric] s2_def [symmetric] d_def [symmetric]
    unfolding m1_def [symmetric] m2_def [symmetric]
  proof (cases "m1 = 0 \<or> m2 = 0")
    case True
    with e have "calculate_cosine_similarity pw a b = Inr 0" by simp
    with True show "\<exists>q. calculate_cosine_similarity pw a b = Inr q \<and>
      (sum_squares a = 0 \<or> sum_squares b = 0 \<longrightarrow> q = 0) \<and>
      (m1 = 0 \<or> m2 = 0 \<longrightarrow> q = 0) \<and>
      (m1 \<noteq> 0 \<and> m2 \<noteq> 0 \<longrightarrow> fdiv d (fmul m1 m2) = Inr q) \<and>
      ((sum_squares a \<noteq> 0 \<longrightarrow> root_within (1 / 2 ^ 52) s1 m1) \<and>
       (sum_squares b \<noteq> 0 \<longrightarrow> root_within (1 / 2 ^ 52) s2 m2) \<longrightarrow>
         \<bar>q\<bar> \<le> 1 + 3 / 2 ^ 52 \<and>
         ((\<forall>x\<in>set a. 0 \<le> x) \<and> (\<forall>y\<in>set b. 0 \<le> y) \<longrightarrow> 0 \<le> q))"
      by auto
  next
    case False
    let ?q = "fl (d / fl (m1 * m2))"
    from False e have q: "calculate_cosine_similarity pw a b = Inr ?q" by simp
    from False have f: "fdiv d (fmul m1 m2) = Inr ?q" by (simp add: fdiv_def fmul_def)
    have q0: "?q = 0" if "sum_squares a = 0 \<or> sum_squares b = 0"
      using z [OF that] by simp
    have "of_int (dot_product a b * dot_product a b) \<le> (of_int (sum_squares a * sum_squares b) :: rat)"
      using cauchy_schwarz [of a b] by (simp only: of_int_le_iff)
    then have cs: "d * d \<le> s1 * s2" by (simp add: d_def s1_def s2_def)
    have b: "\<bar>?q\<bar> \<le> 1 + 3 / 2 ^ 52 \<and>
        ((\<forall>x\<in>set a. 0 \<le> x) \<and> (\<forall>y\<in>set b. 0 \<le> y) \<longrightarrow> 0 \<le> ?q)"
      if h: "(sum_squares a \<noteq> 0 \<longrightarrow> root_within (1 / 2 ^ 52) s1 m1) \<and>
       (sum_squares b \<noteq> 0 \<longrightarrow> root_within (1 / 2 ^ 52) s2 m2)"
    proof (cases "sum_squares a = 0 \<or> sum_squares b = 0")
      case True
      then show ?thesis by (simp add: q0)
    next
      case False
      with h have w: "root_within (1 / 2 ^ 52) s1 m1" "root_within (1 / 2 ^ 52) s2 m2" by simp_all
      have "0 \<le> ?q" if "(\<forall>x\<in>set a. 0 \<le> x) \<and> (\<forall>y\<in>set b. 0 \<le> y)"
      proof -
        from that have "0 \<le> d" by (simp add: d_def dot_product_nonneg)
        then show ?thesis by (rule cosine_result_bounds(2) [OF cs w])
      qed
      with cosine_result_bounds(1) [OF cs w] show ?thesis by blast
    qed
    from q f q0 b False show "\<exists>q. calculate_cosine_similarity pw a b = Inr q \<and>
      (sum_squares a = 0 \<or> sum_squares b = 0 \<longrightarrow> q = 0) \<and>
      (m1 = 0 \<or> m2 = 0 \<longrightarrow> q = 0) \<and>
      (m1 \<noteq> 0 \<and> m2 \<noteq> 0 \<longrightarrow> fdiv d (fmul m1 m2) = Inr q) \<and>
      ((sum_squares a \<noteq> 0 \<longrightarrow> root_within (1 / 2 ^ 52) s1 m1) \<and>
       (sum_squares b \<noteq> 0 \<longrightarrow> root_within (1 / 2 ^ 52) s2 m2) \<longrightarrow>
         \<bar>q\<bar> \<le> 1 + 3 / 2 ^ 52 \<and>
         ((\<forall>x\<in>set a. 0 \<le> x) \<and> (\<forall>y\<in>set b. 0 \<le> y) \<longrightarrow> 0 \<le> q))"
      by blast
  qed
qed

text \<open>
  C5 (as amended). For integer vectors whose sums of squares are at most \<open>2 ^ 53\<close> (so
  that the float sums are exact), and whatever the runtime's \<^verbatim>\<open>x ** 0.5\<close> is,
  \<^verbatim>\<open>calculate_cosine_similarity\<close> raises no error. The result is 0.0 when either vector
  has magnitude zero, be it that all its entries are zero or that the computed magnitude
  is 0.0; otherwise it is the float quotient of the dot product by the float product of
  the two magnitudes, the magnitudes being what \<^verbatim>\<open>x ** 0.5\<close> returns for the sums of
  squares. When these magnitudes are less than one unit in the last place away from the
  square roots, the result is at most \<open>1 + 3 / 2 ^ 52\<close> in absolute value, and it is not
  negative for vectors of non-negative entries.
\<close>

theorem cosine_similarity_range:
  "sum_squares a \<le> 2 ^ 53 \<and> sum_squares b \<le> 2 ^ 53 \<longrightarrow>
    (\<exists>q. calculate_cosine_similarity pw a b = Inr q \<and>
      (sum_squares a = 0 \<or> sum_squares b = 0 \<longrightarrow> q = 0) \<and>
      (pw (of_int (sum_squares a)) = 0 \<or> pw (of_int (sum_squares b)) = 0 \<longrightarrow> q = 0) \<and>
      (pw (of_int (sum_squares a)) \<noteq> 0 \<and> pw (of_int (sum_squares b)) \<noteq> 0 \<longrightarrow>
         fdiv (of_int (dot_product a b))
           (fmul (pw (of_int (sum_squares a))) (pw (of_int (sum_squares b)))) = Inr q) \<and>
      ((sum_squares a \<noteq> 0 \<longrightarrow>
          root_within (1 / 2 ^ 52) (of_int (sum_squares a)) (pw (of_int (sum_squares a)))) \<and>
       (sum_squares b \<noteq> 0 \<longrightarrow>
          root_within (1 / 2 ^ 52) (of_int (sum_squares b)) (pw (of_int (sum_squares b)))) \<longrightarrow>
         \<bar>q\<bar> \<le> 1 + 3 / 2 ^ 52 \<and>
         ((\<forall>x\<in>set a. 0 \<le> x) \<and> (\<forall>y\<in>set b. 0 \<le> y) \<longrightarrow> 0 \<le> q)))"
  using cosine_range_parts [of a b pw] by blast

lemma fsqrt_13: "fsqrt 13 = 8118979690322419 / 2251799813685248"
  by code_simp

lemma fl_sqrt_13_squared:
  "fl (8118979690322419 / 2251799813685248 * (8118979690322419 / 2251799813685248)) =
   7318349394477055 / 562949953421312"
  by code_simp

lemma fl_13_quotient:
  "fl (13 / (7318349394477055 / 562949953421312)) = 4503599627370497 / 4503599627370496"
  by code_simp

text \<open>
  C5 as stated fails in its upper bound. \<^verbatim>\<open>13.0 ** 0.5\<close> is \<^verbatim>\<open>3.605551275463989\<close>, the
  correctly rounded root and the value of the sample function; with it the result for
  the non-negative vector \<^verbatim>\<open>[2, 3]\<close> with itself is \<^verbatim>\<open>1.0000000000000002\<close>, above 1.
\<close>

theorem cosine_range_counterexample:
  "fsqrt 13 = 8118979690322419 / 2251799813685248 \<and>
   calculate_cosine_similarity fsqrt [2, 3] [2, 3] = Inr (1 + 1 / 2 ^ 52) \<and>
   \<not> (1 + 1 / 2 ^ 52 :: rat) \<le> 1"
proof -
  have "calculate_cosine_similarity fsqrt [2, 3] [2, 3] =
      Inr (fl (13 /
        fl (8118979690322419 / 2251799813685248 * (8118979690322419 / 2251799813685248))))"
    by (intro cosine_self_exact) (simp_all add: fsqrt_13)
  then have "calculate_cosine_similarity fsqrt [2, 3] [2, 3] = Inr (1 + 1 / 2 ^ 52)"
    by (simp only: fl_sqrt_13_squared fl_13_quotient) simp
  then show ?thesis by (simp add: fsqrt_13)
qed

lemma fsqrt_0_1: "fsqrt 0 = 0" "fsqrt 1 = 1"
  by code_simp+

lemma fsqrt_2: "fsqrt 2 = 6369051672525773 / 4503599627370496"
  by code_simp

text \<open>
  The theorem at the sample power function with the value \<^verbatim>\<open>59.506302187247364\<close> at
  3541, for \<^verbatim>\<open>[25,54]\<close> and \<^verbatim>\<open>[1,0]\<close> (the result is \<^verbatim>\<open>0.4201235681110375\<close>), and at the
  sample function for the zero vector.
\<close>

theorem cosine_similarity_range_witness:
  "sum_squares [25, 54] \<le> 2 ^ 53 \<and> sum_squares [1, 0] \<le> 2 ^ 53 \<and>
   sum_squares [25, 54] \<noteq> 0 \<and> sum_squares [1, 0] \<noteq> 0 \<and>
   (fsqrt(3541 := 8374767511146355 / 140737488355328)) (of_int (sum_squares [25, 54])) \<noteq> 0 \<and>
   (fsqrt(3541 := 8374767511146355 / 140737488355328)) (of_int (sum_squares [1, 0])) \<noteq> 0 \<and>
   root_within (1 / 2 ^ 52) (of_int (sum_squares [25, 54]))
     ((fsqrt(3541 := 8374767511146355 / 140737488355328)) (of_int (sum_squares [25, 54]))) \<and>
   root_within (1 / 2 ^ 52) (of_int (sum_squares [1, 0]))
     ((fsqrt(3541 := 8374767511146355 / 140737488355328)) (of_int (sum_squares [1, 0]))) \<and>
   list_all (\<lambda>x. 0 \<le> x) [25, 54 :: int] \<and> list_all (\<lambda>y. 0 \<le> y) [1, 0 :: int] \<and>
   calculate_cosine_similarity (fsqrt(3541 := 8374767511146355 / 140737488355328))
     [25, 54] [1, 0] = Inr (7568273379177727 / 18014398509481984) \<and>
   \<bar>7568273379177727 / 18014398509481984 :: rat\<bar> \<le> 1 + 3 / 2 ^ 52 \<and>
   sum_squares [0, 0] = 0 \<and> fsqrt (of_int (sum_squares [0, 0])) = 0 \<and>
   calculate_cosine_similarity fsqrt [0, 0] [1, 2] = Inr 0"
proof -
  let ?pw = "fsqrt(3541 := 8374767511146355 / 140737488355328)"
  have s: "sum_squares [25, 54] = 3541" "sum_squares [1, 0] = 1" "sum_squares [0, 0] = 0"
    "sum_squares [1, 2] = 5" "dot_product [25, 54] [1, 0] = 25"
    by simp_all
  have p: "?pw 3541 = 8374767511146355 / 140737488355328" "?pw 1 = 1" "fsqrt 0 = 0"
    by (simp_all add: fsqrt_0_1)
  have w: "root_within (1 / 2 ^ 52) 3541 (?pw 3541)" "root_within (1 / 2 ^ 52) 1 (?pw 1)"
    by (simp_all only: p runtime_root_3541) (simp add: root_within_def)
  have g: "sum_squares [25, 54] \<le> 2 ^ 53 \<and> sum_squares [1, 0] \<le> 2 ^ 53"
    "sum_squares [0, 0] \<le> 2 ^ 53 \<and> sum_squares [1, 2] \<le> 2 ^ 53"
    by (simp_all only: s) simp_all
  from cosine_similarity_range [where pw = ?pw and a = "[25, 54]" and b = "[1, 0]"] g(1)
  obtain q where q: "calculate_cosine_similarity ?pw [25, 54] [1, 0] = Inr q"
    "?pw (of_int (sum_squares [25, 54])) \<noteq> 0 \<and> ?pw (of_int (sum_squares [1, 0])) \<noteq> 0 \<longrightarrow>
       fdiv (of_int (dot_product [25, 54] [1, 0]))
         (fmul (?pw (of_int (sum_squares [25, 54]))) (?pw (of_int (sum_squares [1, 0])))) = Inr q"
    by blast
  have "fdiv 25 (fmul (?pw 3541) (?pw 1)) = Inr (7568273379177727 / 18014398509481984)"
    by (simp only: p runtime_root_3541)
  with q(2) have v: "q = 7568273379177727 / 18014398509481984"
    by (simp only: s of_int_numeral of_int_1) (simp add: p)
  from cosine_similarity_range [where pw = fsqrt and a = "[0, 0]" and b = "[1, 2]"] g(2)
  have z: "calculate_cosine_similarity fsqrt [0, 0] [1, 2] = Inr 0" by (auto simp: s)
  have "sum_squares [25, 54] \<noteq> 0 \<and> sum_squares [1, 0] \<noteq> 0" by (simp only: s) simp
  moreover have "?pw (of_int (sum_squares [25, 54])) \<noteq> 0 \<and> ?pw (of_int (sum_squares [1, 0])) \<noteq> 0"
    by (simp only: s of_int_numeral of_int_1 p) simp
  moreover have "root_within (1 / 2 ^ 52) (of_int (sum_squares [25, 54]))
      (?pw (of_int (sum_squares [25, 54]))) \<and>
    root_within (1 / 2 ^ 52) (of_int (sum_squares [1, 0])) (?pw (of_int (sum_squares [1, 0])))"
    using w by (simp only: s of_int_numeral of_int_1)
  moreover have "fsqrt (of_int (sum_squares [0, 0])) = 0" by (simp add: fsqrt_0_1)
  ultimately show ?thesis using q(1) v z g(1) by simp
qed

section \<open>Verification: the pipeline\<close>

subsection \<open>The empty-input error\<close>

lemma cosine_total: "\<exists>q. calculate_cosine_similarity pw a b = Inr q"
  by (simp add: calculate_cosine_similarity_def Let_def fdiv_def fmul_def)

lemma edit_total: "\<exists>r. calculate_edit_distance_similarity a b = Inr r"
proof (cases "a \<noteq> [] \<or> b \<noteq> []")
  case True
  then show ?thesis by (simp only: edit_similarity_eq) blast
next
  case False
  then show ?thesis by (simp add: calculate_edit_distance_similarity_def)
qed

lemma text_to_vector_total: "\<exists>v. text_to_vector ws vocabulary = Inr v"
  using fill_vector_total [of "replicate (length vocabulary) 0" vocabulary]
  by (auto simp: text_to_vector_def)

lemma compare_texts_total: "\<exists>score. compare_texts E t1 t2 cw ew = Inr score"
proof -
  let ?w1 = "segment_text (tables E) (jieba_lcut E) t1"
  let ?w2 = "segment_text (tables E) (jieba_lcut E) t2"
  let ?V = "set_to_list E (?w1 @ ?w2)"
  obtain v1 where v1: "text_to_vector ?w1 ?V = Inr v1" using text_to_vector_total by blast
  obtain v2 where v2: "text_to_vector ?w2 ?V = Inr v2" using text_to_vector_total by blast
  obtain q where q: "calculate_cosine_similarity (pow_half E) v1 v2 = Inr q"
    using cosine_total by blast
  obtain r where r: "calculate_edit_distance_similarity t1 t2 = Inr r" using edit_total by blast
  show ?thesis by (simp add: compare_texts_def Let_def v1 v2 q r)
qed

text \<open>
  C2. For two files that exist: if either preprocessed text is empty,
  \<^verbatim>\<open>calculate_similarity\<close> raises the \<^verbatim>\<open>ValueError\<close> for empty documents (the spec's
  \<^verbatim>\<open>EmptyInputError\<close>), whatever the segmenter and the vocabulary order are: neither is
  consulted, and no score is returned. If both preprocessed texts are non-empty, no error
  is raised and a score is returned.
\<close>

theorem calculate_similarity_empty_input:
  "files E file_path1 = Some raw_text1 \<and> files E file_path2 = Some raw_text2 \<longrightarrow>
     (preprocess_text (tables E) raw_text1 = [] \<or> preprocess_text (tables E) raw_text2 = [] \<longrightarrow>
        (\<forall>lcut order.
           calculate_similarity (E\<lparr>jieba_lcut := lcut, set_to_list := order\<rparr>)
             file_path1 file_path2 cosine_weight edit_distance_weight
           = Inl (ValueError EmptyFile))) \<and>
     (preprocess_text (tables E) raw_text1 \<noteq> [] \<and> preprocess_text (tables E) raw_text2 \<noteq> [] \<longrightarrow>
        (\<exists>score. calculate_similarity E file_path1 file_path2 cosine_weight edit_distance_weight
           = Inr score))"
proof (intro impI conjI allI)
  fix lcut order
  assume "files E file_path1 = Some raw_text1 \<and> files E file_path2 = Some raw_text2"
    and "preprocess_text (tables E) raw_text1 = [] \<or> preprocess_text (tables E) raw_text2 = []"
  then show "calculate_similarity (E\<lparr>jieba_lcut := lcut, set_to_list := order\<rparr>)
      file_path1 file_path2 cosine_weight edit_distance_weight = Inl (ValueError EmptyFile)"
    by (auto simp: calculate_similarity_def read_file_def)
next
  assume "files E file_path1 = Some raw_text1 \<and> files E file_path2 = Some raw_text2"
    and "preprocess_text (tables E) raw_text1 \<noteq> [] \<and> preprocess_text (tables E) raw_text2 \<noteq> []"
  then show "\<exists>score. calculate_similarity E file_path1 file_path2 cosine_weight
      edit_distance_weight = Inr score"
    using compare_texts_total by (simp add: calculate_similarity_def read_file_def)
qed

lemma default_weights:
  "default_cosine_weight = 3152519739159347 / 4503599627370496"
  "default_edit_distance_weight = 5404319552844595 / 18014398509481984"
  unfolding default_cosine_weight_def default_edit_distance_weight_def by code_simp+

lemma default_weights_sum:
  "fadd (fmul (3152519739159347 / 4503599627370496) 1)
        (fmul (5404319552844595 / 18014398509481984) 1) = 1"
  by code_simp

lemma sample_files:
  "files sample_env ''orig.txt'' = Some [27979]" "files sample_env ''copy.txt'' = Some [27979]"
  "files sample_env ''empty.txt'' = Some []" "files sample_env ''other.txt'' = Some [27979, 35797]"
  "tables sample_env = basic_tables"
  "jieba_lcut sample_env = single_char_cut" "set_to_list sample_env = remdups"
  "pow_half sample_env = fsqrt"
  by (simp_all add: sample_env_def)

lemma sample_preprocess:
  "preprocess_text basic_tables [27979] = [27979]" "preprocess_text basic_tables [] = []"
  by (simp_all add: preprocess_text_def clean_text_def remove_punctuation_def strip_def
      basic_tables_simps basic_word_def basic_space_def)

lemma sample_compare:
  "compare_texts sample_env [27979] [27979] default_cosine_weight default_edit_distance_weight = Inr 1"
proof -
  have w: "segment_text basic_tables single_char_cut [27979] = [[27979]]"
    by (simp add: segment_text_def single_char_cut_def strip_def basic_tables_simps basic_space_def)
  have v: "text_to_vector [[27979::nat]] [[27979]] = Inr [1]"
    by (simp add: text_to_vector_def calculate_term_frequency_def list_store_def)
  have c: "calculate_cosine_similarity fsqrt [1] [1] = Inr 1"
    by (subst cosine_exact) (simp_all add: fsqrt_0_1)
  have e: "calculate_edit_distance_similarity [27979] [27979] = Inr 1"
    by (simp add: edit_similarity_eq)
  show ?thesis
    by (simp add: compare_texts_def sample_files w v c e default_weights default_weights_sum)
qed

theorem calculate_similarity_empty_input_witness:
  "files sample_env ''orig.txt'' = Some [27979] \<and> files sample_env ''empty.txt'' = Some [] \<and>
   files sample_env ''copy.txt'' = Some [27979] \<and>
   preprocess_text (tables sample_env) [] = [] \<and>
   preprocess_text (tables sample_env) [27979] \<noteq> [] \<and>
   calculate_similarity sample_env ''orig.txt'' ''empty.txt''
     default_cosine_weight default_edit_distance_weight = Inl (ValueError EmptyFile) \<and>
   calculate_similarity sample_env ''orig.txt'' ''copy.txt''
     default_cosine_weight default_edit_distance_weight = Inr 1"
proof -
  have u: "sample_env\<lparr>jieba_lcut := jieba_lcut sample_env, set_to_list := set_to_list sample_env\<rparr>
      = sample_env"
    by simp
  have "calculate_similarity sample_env ''orig.txt'' ''empty.txt''
      default_cosine_weight default_edit_distance_weight = Inl (ValueError EmptyFile)"
    using calculate_similarity_empty_input [of sample_env "''orig.txt''" "[27979]" "''empty.txt''" "[]"
        default_cosine_weight default_edit_distance_weight]
    by (simp only: sample_files sample_preprocess) (metis u)
  moreover have "calculate_similarity sample_env ''orig.txt'' ''copy.txt''
      default_cosine_weight default_edit_distance_weight = Inr 1"
    by (simp add: calculate_similarity_def read_file_def sample_files sample_preprocess sample_compare)
  ultimately show ?thesis by (simp add: sample_files sample_preprocess)
qed

subsection \<open>Symmetry\<close>

lemma text_to_vector_map:
  assumes "distinct vocabulary"
  shows "text_to_vector ws vocabulary = Inr (map (\<lambda>t. int (count_list ws t)) vocabulary)"
proof -
  let ?items = "calculate_term_frequency ws"
  let ?zero = "replicate (length vocabulary) (0::int)"
  obtain v where v: "fill_vector ?items vocabulary ?zero = Inr v" "length v = length vocabulary"
    using fill_vector_total [of ?zero vocabulary ?items] by auto
  have "v ! i = int (count_list ws (vocabulary ! i))" if "i < length vocabulary" for i
    using fill_vector_entries [OF _ assms term_frequency_distinct v(1) that] that
    by (simp add: term_frequency_count count_list_0_iff)
  with v(2) have "v = map (\<lambda>t. int (count_list ws t)) vocabulary"
    by (simp add: list_eq_iff_nth_eq)
  with v(1) show ?thesis by (simp add: text_to_vector_def)
qed

lemma sum_squares_map:
  "distinct V \<Longrightarrow> sum_squares (map f V) = (\<Sum>t\<in>set V. f t * f t)"
  by (simp add: sum_squares_def comp_def sum_list_distinct_conv_sum_set)

lemma dot_product_map:
  "distinct V \<Longrightarrow> dot_product (map f V) (map g V) = (\<Sum>t\<in>set V. f t * g t)"
proof -
  assume d: "distinct V"
  have "map (\<lambda>(x, y). x * y) (zip (map f V) (map g V)) = map (\<lambda>t. f t * g t) V"
    by (induction V) simp_all
  then show ?thesis using d by (simp add: dot_product_def sum_list_distinct_conv_sum_set)
qed

lemma sum_squares_le_square_sum:
  fixes f :: "'a \<Rightarrow> int"
  assumes "finite A" "\<forall>t\<in>A. 0 \<le> f t"
  shows "(\<Sum>t\<in>A. f t * f t) \<le> (\<Sum>t\<in>A. f t) * (\<Sum>t\<in>A. f t)"
  using assms
proof (induction A)
  case empty
  then show ?case by simp
next
  case (insert a A)
  have s: "0 \<le> (\<Sum>t\<in>A. f t)" using insert.prems by (simp add: sum_nonneg)
  have a: "0 \<le> f a" using insert.prems by simp
  have "0 \<le> f a * (\<Sum>t\<in>A. f t)" using a s by simp
  with insert show ?case by (simp add: algebra_simps)
qed

lemma count_squares_bound:
  assumes "set ws \<subseteq> T" "finite T" "length ws < 2 ^ 26"
  shows "(\<Sum>t\<in>T. int (count_list ws t) * int (count_list ws t)) \<le> 2 ^ 53"
proof -
  have "(\<Sum>t\<in>T. int (count_list ws t)) = int (length ws)"
    using sum_count_set [OF assms(1,2)] by (metis of_nat_sum)
  moreover have "(\<Sum>t\<in>T. int (count_list ws t) * int (count_list ws t)) \<le>
      (\<Sum>t\<in>T. int (count_list ws t)) * (\<Sum>t\<in>T. int (count_list ws t))"
    using assms(2) by (intro sum_squares_le_square_sum) simp_all
  ultimately have "(\<Sum>t\<in>T. int (count_list ws t) * int (count_list ws t)) \<le>
      int (length ws) * int (length ws)" by simp
  also have "\<dots> \<le> 2 ^ 26 * 2 ^ 26" using assms(3) by (intro mult_mono) simp_all
  also have "\<dots> \<le> 2 ^ 53" by simp
  finally show ?thesis .
qed

lemma cosine_count_vectors:
  assumes "distinct V" "distinct V'" "set V = set w1 \<union> set w2" "set V' = set V"
    and "length w1 < 2 ^ 26" "length w2 < 2 ^ 26"
  shows "calculate_cosine_similarity pw (map (\<lambda>t. int (count_list w1 t)) V)
           (map (\<lambda>t. int (count_list w2 t)) V) =
         calculate_cosine_similarity pw (map (\<lambda>t. int (count_list w2 t)) V')
           (map (\<lambda>t. int (count_list w1 t)) V')"
proof -
  let ?c1 = "\<lambda>t. int (count_list w1 t)" and ?c2 = "\<lambda>t. int (count_list w2 t)"
  have s1: "sum_squares (map ?c1 V) \<le> 2 ^ 53" "sum_squares (map ?c1 V') = sum_squares (map ?c1 V)"
    using count_squares_bound [of w1 "set V"] assms by (simp_all add: sum_squares_map)
  have s2: "sum_squares (map ?c2 V) \<le> 2 ^ 53" "sum_squares (map ?c2 V') = sum_squares (map ?c2 V)"
    using count_squares_bound [of w2 "set V"] assms by (simp_all add: sum_squares_map)
  have d: "dot_product (map ?c2 V') (map ?c1 V') = dot_product (map ?c1 V) (map ?c2 V)"
    using assms by (simp add: dot_product_map mult.commute)
  have "calculate_cosine_similarity pw (map ?c2 V') (map ?c1 V') =
      (if pw (of_int (sum_squares (map ?c2 V'))) = 0 \<or> pw (of_int (sum_squares (map ?c1 V'))) = 0
       then Inr 0
       else Inr (fl (of_int (dot_product (map ?c2 V') (map ?c1 V')) /
          fl (pw (of_int (sum_squares (map ?c2 V'))) * pw (of_int (sum_squares (map ?c1 V')))))))"
    using s1 s2 by (intro cosine_exact) simp_all
  moreover have "calculate_cosine_similarity pw (map ?c1 V) (map ?c2 V) =
      (if pw (of_int (sum_squares (map ?c1 V))) = 0 \<or> pw (of_int (sum_squares (map ?c2 V))) = 0
       then Inr 0
       else Inr (fl (of_int (dot_product (map ?c1 V) (map ?c2 V)) /
          fl (pw (of_int (sum_squares (map ?c1 V))) * pw (of_int (sum_squares (map ?c2 V)))))))"
    using s1 s2 by (intro cosine_exact) simp_all
  ultimately show ?thesis by (simp add: s1 s2 d mult.commute disj_commute)
qed

lemma edit_similarity_sym:
  "calculate_edit_distance_similarity a b = calculate_edit_distance_similarity b a"
  by (simp add: calculate_edit_distance_similarity_def levenshtein_sym [of a b] max.commute)

text \<open>
  C10. For two files that exist, swapping them does not change what
  \<^verbatim>\<open>calculate_similarity\<close> returns, the score or the error, provided the runtime
  enumerates a set built from a list without duplicates and without losing an element
  (in whatever order, which may differ between the two calls), and each document has
  fewer than \<open>2 ^ 26\<close> tokens, so that the float sums over the term counts are exact.
\<close>

theorem calculate_similarity_symmetric:
  "files E file_path1 = Some raw_text1 \<and> files E file_path2 = Some raw_text2 \<and>
   (\<forall>ws. distinct (set_to_list E ws) \<and> set (set_to_list E ws) = set ws) \<and>
   length (segment_text (tables E) (jieba_lcut E) (preprocess_text (tables E) raw_text1)) < 2 ^ 26 \<and>
   length (segment_text (tables E) (jieba_lcut E) (preprocess_text (tables E) raw_text2)) < 2 ^ 26
   \<longrightarrow>
   calculate_similarity E file_path1 file_path2 cosine_weight edit_distance_weight =
   calculate_similarity E file_path2 file_path1 cosine_weight edit_distance_weight"
proof (intro impI, elim conjE)
  assume f: "files E file_path1 = Some raw_text1" "files E file_path2 = Some raw_text2"
    and o: "\<forall>ws. distinct (set_to_list E ws) \<and> set (set_to_list E ws) = set ws"
    and l1: "length (segment_text (tables E) (jieba_lcut E) (preprocess_text (tables E) raw_text1)) < 2 ^ 26"
    and l2: "length (segment_text (tables E) (jieba_lcut E) (preprocess_text (tables E) raw_text2)) < 2 ^ 26"
  define t1 t2 where "t1 = preprocess_text (tables E) raw_text1"
    and "t2 = preprocess_text (tables E) raw_text2"
  define w1 w2 where "w1 = segment_text (tables E) (jieba_lcut E) t1"
    and "w2 = segment_text (tables E) (jieba_lcut E) t2"
  define V V' where "V = set_to_list E (w1 @ w2)" and "V' = set_to_list E (w2 @ w1)"
  from o have V: "distinct V" "set V = set w1 \<union> set w2" by (simp_all add: V_def)
  from o have V': "distinct V'" "set V' = set V" by (auto simp: V'_def V_def)
  have c: "calculate_cosine_similarity (pow_half E) (map (\<lambda>t. int (count_list w1 t)) V)
           (map (\<lambda>t. int (count_list w2 t)) V) =
         calculate_cosine_similarity (pow_half E) (map (\<lambda>t. int (count_list w2 t)) V')
           (map (\<lambda>t. int (count_list w1 t)) V')"
    using V V' l1 l2 by (intro cosine_count_vectors) (simp_all add: w1_def w2_def t1_def t2_def)
  have "compare_texts E t1 t2 cosine_weight edit_distance_weight =
      compare_texts E t2 t1 cosine_weight edit_distance_weight"
    unfolding compare_texts_def Let_def
    by (simp only: w1_def [symmetric] w2_def [symmetric] V_def [symmetric] V'_def [symmetric]
        text_to_vector_map [OF V(1)] text_to_vector_map [OF V'(1)] c
        edit_similarity_sym [of t1 t2] sum.case)
  then show "calculate_similarity E file_path1 file_path2 cosine_weight edit_distance_weight =
      calculate_similarity E file_path2 file_path1 cosine_weight edit_distance_weight"
    using f by (auto simp: calculate_similarity_def read_file_def t1_def t2_def Let_def)
qed

lemma sample_score_parts:
  "fl (6369051672525773 / 4503599627370496) = 6369051672525773 / 4503599627370496"
  "fl (4503599627370496 / 6369051672525773) = 1592262918131443 / 2251799813685248"
  "fl (1 / 2) = 1 / 2"
  "fadd (fmul (3152519739159347 / 4503599627370496) (1592262918131443 / 2251799813685248))
        (fmul (5404319552844595 / 18014398509481984) (1 / 2)) =
   5809416058979189 / 9007199254740992"
  by code_simp+

lemma sample_segments:
  "segment_text basic_tables single_char_cut [27979] = [[27979]]"
  "segment_text basic_tables single_char_cut [27979, 35797] = [[27979], [35797]]"
  by (simp_all add: segment_text_def single_char_cut_def strip_def basic_tables_simps basic_space_def)

lemma sample_compare_other:
  "compare_texts sample_env [27979] [27979, 35797] default_cosine_weight default_edit_distance_weight
     = Inr (5809416058979189 / 9007199254740992)"
proof -
  have v1: "text_to_vector [[27979::nat]] [[27979], [35797]] = Inr [1, 0]"
    by (simp add: text_to_vector_map)
  have v2: "text_to_vector [[27979::nat], [35797]] [[27979], [35797]] = Inr [1, 1]"
    by (simp add: text_to_vector_map)
  have c: "calculate_cosine_similarity fsqrt [1, 0] [1, 1] = Inr (1592262918131443 / 2251799813685248)"
    by (subst cosine_exact) (simp_all add: fsqrt_0_1 fsqrt_2 sample_score_parts)
  have e: "calculate_edit_distance_similarity [27979] [27979, 35797] = Inr (1 / 2)"
    by (simp add: edit_similarity_eq sample_score_parts)
  show ?thesis
    by (simp add: compare_texts_def sample_files sample_segments v1 v2 c e default_weights
        sample_score_parts)
qed

theorem calculate_similarity_symmetric_witness:
  "files sample_env ''orig.txt'' = Some [27979] \<and>
   files sample_env ''other.txt'' = Some [27979, 35797] \<and>
   (\<forall>ws. distinct (set_to_list sample_env ws) \<and> set (set_to_list sample_env ws) = set ws) \<and>
   length (segment_text (tables sample_env) (jieba_lcut sample_env)
     (preprocess_text (tables sample_env) [27979])) < 2 ^ 26 \<and>
   length (segment_text (tables sample_env) (jieba_lcut sample_env)
     (preprocess_text (tables sample_env) [27979, 35797])) < 2 ^ 26 \<and>
   calculate_similarity sample_env ''orig.txt'' ''other.txt''
     default_cosine_weight default_edit_distance_weight = Inr (5809416058979189 / 9007199254740992) \<and>
   calculate_similarity sample_env ''other.txt'' ''orig.txt''
     default_cosine_weight default_edit_distance_weight = Inr (5809416058979189 / 9007199254740992)"
proof -
  have p: "preprocess_text basic_tables [27979, 35797] = [27979, 35797]"
    by (simp add: preprocess_text_def clean_text_def remove_punctuation_def strip_def
        basic_tables_simps basic_word_def basic_space_def)
  have h: "files sample_env ''orig.txt'' = Some [27979] \<and>
    files sample_env ''other.txt'' = Some [27979, 35797] \<and>
    (\<forall>ws. distinct (set_to_list sample_env ws) \<and> set (set_to_list sample_env ws) = set ws) \<and>
    length (segment_text (tables sample_env) (jieba_lcut sample_env)
      (preprocess_text (tables sample_env) [27979])) < 2 ^ 26 \<and>
    length (segment_text (tables sample_env) (jieba_lcut sample_env)
      (preprocess_text (tables sample_env) [27979, 35797])) < 2 ^ 26"
    by (simp add: sample_files sample_preprocess p sample_segments)
  have s: "calculate_similarity sample_env ''orig.txt'' ''other.txt''
      default_cosine_weight default_edit_distance_weight = Inr (5809416058979189 / 9007199254740992)"
    by (simp add: calculate_similarity_def read_file_def sample_files sample_preprocess p
        sample_compare_other)
  from calculate_similarity_symmetric [of sample_env "''orig.txt''" "[27979]" "''other.txt''"
      "[27979, 35797]" default_cosine_weight default_edit_distance_weight] h
  have "calculate_similarity sample_env ''orig.txt'' ''other.txt''
      default_cosine_weight default_edit_distance_weight =
    calculate_similarity sample_env ''other.txt'' ''orig.txt''
      default_cosine_weight default_edit_distance_weight"
    by blast
  with s h show ?thesis by simp
qed

end
